theory Spec2Isabelle
  imports Main "HOL-Library.Sublist"
begin

section \<open>Text, character classes and the regular expressions of the script\<close>

text \<open>
  The script \<^verbatim>\<open>scripts/fix-colors.py\<close> reads each stylesheet as UTF-8 into a Python
  \<^verbatim>\<open>str\<close>, so the regular expressions see a sequence of Unicode code points.  A code
  point is a natural number and a text is a list of them; \<open>str\<close> turns an ASCII literal
  of the script into such a text.
\<close>

type_synonym cp = nat
type_synonym ustr = "cp list"

definition str :: "string \<Rightarrow> ustr" where
  "str s = map of_char s"

text \<open>
  Python's \<^verbatim>\<open>\s\<close> and \<^verbatim>\<open>\b\<close> consult the Unicode database of the interpreter.  For the
  printable ASCII characters, tab, line feed, vertical tab, form feed, carriage return
  and space the answer is fixed and written out here; for every other code point it is
  taken from the tables \<open>uni_space\<close> and \<open>uni_alnum\<close>, a parameter of the model.
\<close>

record ucd =
  uni_space :: "cp \<Rightarrow> bool"
  uni_alnum :: "cp \<Rightarrow> bool"

definition is_space :: "ucd \<Rightarrow> cp \<Rightarrow> bool" where
  "is_space U c =
     (if 9 \<le> c \<and> c \<le> 13 \<or> c = 32 then True
      else if 33 \<le> c \<and> c \<le> 126 then False
      else uni_space U c)"

definition is_word :: "ucd \<Rightarrow> cp \<Rightarrow> bool" where
  "is_word U c =
     (if c < 128
      then 48 \<le> c \<and> c \<le> 57 \<or> 65 \<le> c \<and> c \<le> 90 \<or> 97 \<le> c \<and> c \<le> 122 \<or> c = 95
      else uni_alnum U c)"

text \<open>
  The patterns of the script are sequences of items: a character class taken once,
  under \<^verbatim>\<open>*\<close> or under \<^verbatim>\<open>+\<close>, or the assertion \<^verbatim>\<open>\b\<close>.  The classes are a literal
  character, \<^verbatim>\<open>\s\<close> and a negated one-character set (\<^verbatim>\<open>[^}]\<close>).
\<close>

datatype cls = Lit cp | Space | NotCh cp

datatype item = One cls | Star cls | Plus cls | WordB

type_synonym regex = "item list"

fun accepts :: "ucd \<Rightarrow> cls \<Rightarrow> cp \<Rightarrow> bool" where
  "accepts U (Lit c) x = (x = c)"
| "accepts U Space x = is_space U x"
| "accepts U (NotCh c) x = (x \<noteq> c)"

text \<open>
  \<^verbatim>\<open>\b\<close> holds between the previous character and the next one when exactly one of them
  is a word character; the start and the end of the text count as non-word.
\<close>

definition word_opt :: "ucd \<Rightarrow> cp option \<Rightarrow> bool" where
  "word_opt U p = (case p of None \<Rightarrow> False | Some c \<Rightarrow> is_word U c)"

definition next_cp :: "ustr \<Rightarrow> cp option" where
  "next_cp t = (case t of [] \<Rightarrow> None | c # _ \<Rightarrow> Some c)"

definition at_boundary :: "ucd \<Rightarrow> cp option \<Rightarrow> ustr \<Rightarrow> bool" where
  "at_boundary U prev t = (word_opt U prev \<noteq> word_opt U (next_cp t))"

text \<open>
  \<open>rmatch U p prev t\<close> is the backtracking matcher of Python's \<^verbatim>\<open>re\<close> anchored at the
  current position: \<open>prev\<close> is the character before the position, \<open>t\<close> the text from
  the position on, the result the length of the match found first, if any.  The
  quantifiers are greedy: one more repetition is tried before the rest of the pattern.
\<close>

fun rmatch :: "ucd \<Rightarrow> regex \<Rightarrow> cp option \<Rightarrow> ustr \<Rightarrow> nat option" where
  "rmatch U [] prev t = Some 0"
| "rmatch U (One a # ps) prev [] = None"
| "rmatch U (One a # ps) prev (c # t) =
     (if accepts U a c then map_option Suc (rmatch U ps (Some c) t) else None)"
| "rmatch U (Plus a # ps) prev [] = None"
| "rmatch U (Plus a # ps) prev (c # t) =
     (if accepts U a c then map_option Suc (rmatch U (Star a # ps) (Some c) t) else None)"
| "rmatch U (Star a # ps) prev [] = rmatch U ps prev []"
| "rmatch U (Star a # ps) prev (c # t) =
     (if accepts U a c
      then (case rmatch U (Star a # ps) (Some c) t of
              Some n \<Rightarrow> Some (Suc n)
            | None \<Rightarrow> rmatch U ps prev (c # t))
      else rmatch U ps prev (c # t))"
| "rmatch U (WordB # ps) prev t =
     (if at_boundary U prev t then rmatch U ps prev t else None)"

text \<open>
  \<^verbatim>\<open>re.sub(pattern, repl, string)\<close> scans the text from the left; where the pattern
  matches, the replacement is emitted and the scan resumes after the match, otherwise
  the character is copied.  The replacements of the script contain no backslash, so
  they are emitted literally.  After an empty match the character at the position is
  copied and the scan moves on by one.
\<close>

function re_sub :: "ucd \<Rightarrow> regex \<Rightarrow> ustr \<Rightarrow> cp option \<Rightarrow> ustr \<Rightarrow> ustr" where
  "re_sub U p r prev [] = (case rmatch U p prev [] of None \<Rightarrow> [] | Some _ \<Rightarrow> r)"
| "re_sub U p r prev (c # cs) =
     (case rmatch U p prev (c # cs) of
        None \<Rightarrow> c # re_sub U p r (Some c) cs
      | Some 0 \<Rightarrow> r @ c # re_sub U p r (Some c) cs
      | Some (Suc n) \<Rightarrow> r @ re_sub U p r (Some ((c # cs) ! n)) (drop n cs))"
  by pat_completeness auto
termination
  by (relation "measure (\<lambda>(U, p, r, prev, t). length t)") auto

text \<open>\<^verbatim>\<open>len(re.findall(pattern, string))\<close>: the number of matches of the same scan.\<close>

function findall_count :: "ucd \<Rightarrow> regex \<Rightarrow> cp option \<Rightarrow> ustr \<Rightarrow> nat" where
  "findall_count U p prev [] = (case rmatch U p prev [] of None \<Rightarrow> 0 | Some _ \<Rightarrow> 1)"
| "findall_count U p prev (c # cs) =
     (case rmatch U p prev (c # cs) of
        None \<Rightarrow> findall_count U p (Some c) cs
      | Some 0 \<Rightarrow> Suc (findall_count U p (Some c) cs)
      | Some (Suc n) \<Rightarrow> Suc (findall_count U p (Some ((c # cs) ! n)) (drop n cs)))"
  by pat_completeness auto
termination
  by (relation "measure (\<lambda>(U, p, prev, t). length t)") auto

section \<open>The rule table\<close>

text \<open>
  \<open>lits s\<close> is the pattern of the literal characters of \<open>s\<close>.  The three shapes of
  pattern in \<^verbatim>\<open>color_replacements\<close>: the gradient, a hex colour followed by \<^verbatim>\<open>\b\<close>,
  and \<^verbatim>\<open>rgba\(\s*R,\s*G,\s*B,\s*A\)\<close>.
\<close>

definition lits :: "string \<Rightarrow> regex" where
  "lits s = map (\<lambda>c. One (Lit (of_char c))) s"

definition gradient_pat :: regex where
  "gradient_pat =
     lits ''linear-gradient(135deg,'' @ [Star Space] @ lits ''#a855f7'' @ [Plus Space] @
     lits ''0%,'' @ [Star Space] @ lits ''#9333ea'' @ [Plus Space] @ lits ''100%)''"

definition hex_pat :: "string \<Rightarrow> regex" where
  "hex_pat tok = lits tok @ [WordB]"

definition rgba_pat :: "string \<Rightarrow> string \<Rightarrow> string \<Rightarrow> string \<Rightarrow> regex" where
  "rgba_pat r g b a =
     lits ''rgba('' @ [Star Space] @ lits r @ lits '','' @ [Star Space] @
     lits g @ lits '','' @ [Star Space] @ lits b @ lits '','' @ [Star Space] @
     lits a @ lits '')''"

text \<open>
  \<^verbatim>\<open>color_replacements\<close>, in the insertion order of the dictionary, which is the order
  in which \<^verbatim>\<open>.items()\<close> yields the rules.
\<close>

definition color_replacements :: "(regex \<times> ustr) list" where
  "color_replacements =
   [(gradient_pat, str ''var(--primary-gradient)''),
    (hex_pat ''#9333ea'', str ''var(--primary)''),
    (hex_pat ''#a855f7'', str ''var(--primary-light)''),
    (hex_pat ''#c084fc'', str ''var(--primary-lighter)''),
    (hex_pat ''#7c3aed'', str ''var(--primary-dark)''),
    (hex_pat ''#f3e8ff'', str ''var(--primary-bg-light)''),
    (hex_pat ''#faf5ff'', str ''var(--primary-bg-lighter)''),
    (hex_pat ''#e9d5ff'', str ''var(--primary-border)''),
    (rgba_pat ''243'' ''232'' ''255'' ''0.4'',
       str ''color-mix(in srgb, var(--primary-bg-light) 40%, transparent)''),
    (rgba_pat ''233'' ''213'' ''255'' ''0.6'',
       str ''color-mix(in srgb, var(--primary-border) 60%, transparent)''),
    (rgba_pat ''168'' ''85'' ''247'' ''0.05'',
       str ''color-mix(in srgb, var(--primary-light) 5%, transparent)''),
    (rgba_pat ''168'' ''85'' ''247'' ''0.1'',
       str ''color-mix(in srgb, var(--primary) 10%, transparent)''),
    (rgba_pat ''168'' ''85'' ''247'' ''0.15'',
       str ''color-mix(in srgb, var(--primary-light) 15%, transparent)''),
    (rgba_pat ''168'' ''85'' ''247'' ''0.2'',
       str ''color-mix(in srgb, var(--primary-light) 20%, transparent)''),
    (rgba_pat ''168'' ''85'' ''247'' ''0.3'',
       str ''color-mix(in srgb, var(--primary) 30%, transparent)''),
    (rgba_pat ''147'' ''51'' ''234'' ''0.02'',
       str ''color-mix(in srgb, var(--primary) 2%, transparent)''),
    (rgba_pat ''147'' ''51'' ''234'' ''0.05'',
       str ''color-mix(in srgb, var(--primary) 5%, transparent)''),
    (rgba_pat ''147'' ''51'' ''234'' ''0.1'',
       str ''color-mix(in srgb, var(--primary) 10%, transparent)''),
    (rgba_pat ''147'' ''51'' ''234'' ''0.15'',
       str ''color-mix(in srgb, var(--primary) 15%, transparent)''),
    (rgba_pat ''147'' ''51'' ''234'' ''0.2'', str ''var(--primary-shadow)''),
    (rgba_pat ''147'' ''51'' ''234'' ''0.3'', str ''var(--primary-shadow-hover)'')]"

text \<open>
  The loop of \<^verbatim>\<open>fix_colors_in_file\<close> over the rules: each rule rewrites the whole
  content; when that changed the content, the matches of the rule in the content
  before the rewrite are counted and added to \<^verbatim>\<open>changes_made\<close>.
\<close>

fun apply_rules :: "ucd \<Rightarrow> (regex \<times> ustr) list \<Rightarrow> ustr \<Rightarrow> nat \<Rightarrow> ustr \<times> nat" where
  "apply_rules U [] content changes_made = (content, changes_made)"
| "apply_rules U ((pattern, replacement) # rules) content changes_made =
     (let new_content = re_sub U pattern replacement None content in
      if new_content \<noteq> content
      then apply_rules U rules new_content
             (changes_made + findall_count U pattern None content)
      else apply_rules U rules content changes_made)"

text \<open>
  The pattern and the replacement of the special case for \<^verbatim>\<open>App.css\<close> in \<^verbatim>\<open>main\<close>:
  \<^verbatim>\<open>\.app-loading-spinner \{[^}]+color:\s*#9333ea;\<close>; the replacement has a line feed
  and two spaces after the brace.
\<close>

definition spinner_pat :: regex where
  "spinner_pat =
     lits ''.app-loading-spinner {'' @ [Plus (NotCh (of_char CHR ''}''))] @
     lits ''color:'' @ [Star Space] @ lits ''#9333ea;''"

definition spinner_rep :: ustr where
  "spinner_rep = str ''.app-loading-spinner {'' @ [10] @ str ''  color: var(--primary);''"

section \<open>Files, console and the two functions of the script\<close>

text \<open>
  The script acts on the file system and the console; listing a directory, reading,
  writing and printing can raise.  Per path, the state records what \<^verbatim>\<open>os.path.exists\<close> and \<^verbatim>\<open>os.listdir\<close>
  answer, what opening and reading the file as UTF-8 yields (the text, or the exception
  raised), and how writing it goes wrong, if it does: \<^verbatim>\<open>open(path, 'w')\<close> raises and the
  file is as before (\<open>AtOpen\<close>), or the file has been truncated by \<^verbatim>\<open>open\<close> and
  \<^verbatim>\<open>write\<close>, the flush or the close raises once so many characters of the text have
  reached the file (\<open>AfterOpen\<close>; the file then holds that prefix of the text).  Per
  line, \<open>print_error\<close> tells whether \<^verbatim>\<open>print\<close> of the line raises (a console encoding
  without the emoji of the line, a closed pipe); nothing is printed then.  \<open>writes\<close>
  logs every path opened for writing, the latest first; \<open>console\<close> is the sequence of
  lines printed.
\<close>

type_synonym path = string

datatype error = OSError string | UnicodeDecodeError | UnicodeEncodeError

datatype write_fault = AtOpen error | AfterOpen nat error

datatype report =
    BannerStart
  | Changed path nat
  | NoChange path
  | Failed path error
  | SpinnerFixed path
  | BannerEnd

record world =
  path_exists :: "path \<Rightarrow> bool"
  listdir :: "path \<Rightarrow> error + string list"
  contents :: "path \<Rightarrow> error + ustr"
  write_error :: "path \<Rightarrow> write_fault option"
  print_error :: "report \<Rightarrow> error option"
  writes :: "path list"
  console :: "report list"

text \<open>
  A statement of the script takes the state to a value or an exception, and a new
  state.  \<open>and_then\<close> is the sequencing of two statements: an exception raised by the
  first ends the block.
\<close>

definition and_then ::
  "(world \<Rightarrow> (error + 'a) \<times> world) \<Rightarrow> (world \<Rightarrow> (error + 'b) \<times> world) \<Rightarrow>
   world \<Rightarrow> (error + 'b) \<times> world" where
  "and_then f g w = (case f w of (Inl e, w') \<Rightarrow> (Inl e, w') | (Inr _, w') \<Rightarrow> g w')"

definition return :: "'a \<Rightarrow> world \<Rightarrow> (error + 'a) \<times> world" where
  "return x w = (Inr x, w)"

definition read_file :: "path \<Rightarrow> world \<Rightarrow> error + ustr" where
  "read_file p w = contents w p"

definition write_file :: "path \<Rightarrow> ustr \<Rightarrow> world \<Rightarrow> (error + unit) \<times> world" where
  "write_file p t w =
     (case write_error w p of
        None \<Rightarrow> (Inr (), w\<lparr>contents := (contents w)(p := Inr t), writes := p # writes w\<rparr>)
      | Some (AtOpen e) \<Rightarrow> (Inl e, w)
      | Some (AfterOpen n e) \<Rightarrow>
          (Inl e, w\<lparr>contents := (contents w)(p := Inr (take n t)), writes := p # writes w\<rparr>))"

definition print :: "report \<Rightarrow> world \<Rightarrow> (error + unit) \<times> world" where
  "print r w =
     (case print_error w r of
        Some e \<Rightarrow> (Inl e, w)
      | None \<Rightarrow> (Inr (), w\<lparr>console := console w @ [r]\<rparr>))"

text \<open>
  The body of the \<^verbatim>\<open>try\<close> of \<^verbatim>\<open>fix_colors_in_file\<close>: the value returned, or the
  exception raised, with the state reached.  The two \<^verbatim>\<open>print\<close> calls are inside the
  \<^verbatim>\<open>try\<close>.
\<close>

definition fix_colors_try :: "ucd \<Rightarrow> path \<Rightarrow> world \<Rightarrow> (error + bool) \<times> world" where
  "fix_colors_try U filepath w =
     (case read_file filepath w of
        Inl e \<Rightarrow> (Inl e, w)
      | Inr original_content \<Rightarrow>
          (case apply_rules U color_replacements original_content 0 of
             (content, changes_made) \<Rightarrow>
               if content \<noteq> original_content
               then and_then (write_file filepath content)
                      (and_then (print (Changed filepath changes_made)) (return True)) w
               else and_then (print (NoChange filepath)) (return False) w))"

text \<open>
  With its \<^verbatim>\<open>except Exception\<close>: the error is printed and \<^verbatim>\<open>False\<close> returned.  The
  \<^verbatim>\<open>print\<close> of the handler is outside any \<^verbatim>\<open>try\<close>, so what it raises leaves the
  function.
\<close>

definition fix_colors_in_file :: "ucd \<Rightarrow> path \<Rightarrow> world \<Rightarrow> (error + bool) \<times> world" where
  "fix_colors_in_file U filepath w =
     (case fix_colors_try U filepath w of
        (Inl e, w') \<Rightarrow> and_then (print (Failed filepath e)) (return False) w'
      | (Inr b, w') \<Rightarrow> (Inr b, w'))"

text \<open>
  \<^verbatim>\<open>main\<close> prints a banner, runs three phases in sequence and prints a closing banner;
  an exception that any of them raises ends the run.
\<close>

definition component_dir :: path where
  "component_dir = ''src/components''"

definition dark_mode_file :: path where
  "dark_mode_file = ''src/styles/dark-mode.css''"

definition app_css_file :: path where
  "app_css_file = ''src/styles/App.css''"

definition endswith :: "string \<Rightarrow> string \<Rightarrow> bool" where
  "endswith s suf = (length suf \<le> length s \<and> drop (length s - length suf) s = suf)"

text \<open>\<^verbatim>\<open>os.path.join\<close> of two components, with \<^verbatim>\<open>/\<close> as the separator.\<close>

definition path_join :: "path \<Rightarrow> string \<Rightarrow> path" where
  "path_join d f =
     (if f \<noteq> [] \<and> hd f = CHR ''/'' then f
      else if d = [] \<or> last d = CHR ''/'' then d @ f
      else d @ ''/'' @ f)"

fun process_components :: "ucd \<Rightarrow> string list \<Rightarrow> world \<Rightarrow> (error + unit) \<times> world" where
  "process_components U [] w = (Inr (), w)"
| "process_components U (filename # rest) w =
     (if endswith filename ''.css''
      then and_then (fix_colors_in_file U (path_join component_dir filename))
             (process_components U rest) w
      else process_components U rest w)"

definition phase_components :: "ucd \<Rightarrow> world \<Rightarrow> (error + unit) \<times> world" where
  "phase_components U w =
     (if path_exists w component_dir
      then (case listdir w component_dir of
              Inl e \<Rightarrow> (Inl e, w)
            | Inr names \<Rightarrow> process_components U names w)
      else (Inr (), w))"

definition phase_dark_mode :: "ucd \<Rightarrow> world \<Rightarrow> (error + unit) \<times> world" where
  "phase_dark_mode U w =
     (if path_exists w dark_mode_file
      then and_then (fix_colors_in_file U dark_mode_file) (return ()) w
      else (Inr (), w))"

definition phase_app_css :: "ucd \<Rightarrow> world \<Rightarrow> (error + unit) \<times> world" where
  "phase_app_css U w =
     (if path_exists w app_css_file
      then (case read_file app_css_file w of
              Inl e \<Rightarrow> (Inl e, w)
            | Inr content \<Rightarrow>
                and_then
                  (write_file app_css_file (re_sub U spinner_pat spinner_rep None content))
                  (print (SpinnerFixed app_css_file)) w)
      else (Inr (), w))"

definition main :: "ucd \<Rightarrow> world \<Rightarrow> (error + unit) \<times> world" where
  "main U w =
     and_then (print BannerStart)
       (and_then (phase_components U)
          (and_then (phase_dark_mode U)
             (and_then (phase_app_css U) (print BannerEnd)))) w"

text \<open>
  A database in which no code point outside printable ASCII and the six ASCII blanks is
  a space or alphanumeric.  It serves to run the definitions on ASCII inputs, whose
  classification does not depend on the tables.
\<close>

definition ascii_ucd :: ucd where
  "ascii_ucd = \<lparr>uni_space = (\<lambda>_. False), uni_alnum = (\<lambda>_. False)\<rparr>"

text \<open>
  A checkout in which \<^verbatim>\<open>src/styles/App.css\<close> is the only path that exists; \<open>r\<close> is what
  reading it yields.  Writing and printing succeed.
\<close>

definition only_app_css :: "error + ustr \<Rightarrow> world" where
  "only_app_css r =
     \<lparr>path_exists = (\<lambda>p. p = app_css_file),
      listdir = (\<lambda>p. Inl (OSError ''No such file or directory'')),
      contents = (\<lambda>p. if p = app_css_file then r
                      else Inl (OSError ''No such file or directory'')),
      write_error = (\<lambda>p. None),
      print_error = (\<lambda>l. None),
      writes = [],
      console = []\<rparr>"

text \<open>
  A checkout with one stylesheet \<open>p\<close> holding the text \<open>t\<close>, which can be read and
  written; \<open>pe\<close> tells which lines the console refuses.
\<close>

definition one_file :: "path \<Rightarrow> ustr \<Rightarrow> (report \<Rightarrow> error option) \<Rightarrow> world" where
  "one_file p t pe =
     \<lparr>path_exists = (\<lambda>q. q = p),
      listdir = (\<lambda>q. Inl (OSError ''Not a directory'')),
      contents = (\<lambda>q. if q = p then Inr t else Inl (OSError ''No such file or directory'')),
      write_error = (\<lambda>q. None),
      print_error = pe,
      writes = [],
      console = []\<rparr>"

text \<open>
  Every line the script prints has an emoji in it.  On a console whose encoding has no
  emoji (\<^verbatim>\<open>cp1252\<close>, \<^verbatim>\<open>ascii\<close>) \<^verbatim>\<open>print\<close> raises \<^verbatim>\<open>UnicodeEncodeError\<close> for each of them.
\<close>

definition no_emoji :: "report \<Rightarrow> error option" where
  "no_emoji l = Some UnicodeEncodeError"

section \<open>Auxiliary notions for the proofs\<close>

text \<open>
  The substitution engine as the specification words it: the rules are applied in
  order, each to the output of the one before (\<open>rewritten\<close>), and the count reported
  is the sum over the rules of the matches of each rule in its own input
  (\<open>match_total\<close>).
\<close>

fun rewritten :: "ucd \<Rightarrow> (regex \<times> ustr) list \<Rightarrow> ustr \<Rightarrow> ustr" where
  "rewritten U [] t = t"
| "rewritten U ((p, r) # rules) t = rewritten U rules (re_sub U p r None t)"

fun match_total :: "ucd \<Rightarrow> (regex \<times> ustr) list \<Rightarrow> ustr \<Rightarrow> nat" where
  "match_total U [] t = 0"
| "match_total U ((p, r) # rules) t =
     findall_count U p None t + match_total U rules (re_sub U p r None t)"

text \<open>
  A pattern is \<open>headed\<close> when it begins with a character that must be consumed;
  \<open>distinct_head p r\<close> says that \<open>p\<close> begins with a literal with which the replacement
  \<open>r\<close> does not begin.
\<close>

fun headed :: "regex \<Rightarrow> bool" where
  "headed (One a # ps) = True"
| "headed (Plus a # ps) = True"
| "headed _ = False"

fun distinct_head :: "regex \<Rightarrow> ustr \<Rightarrow> bool" where
  "distinct_head (One (Lit a) # ps) (b # r) = (a \<noteq> b)"
| "distinct_head _ _ = False"

text \<open>
  \<open>ulits w\<close> is the pattern of the literal code points of \<open>w\<close>, so that
  \<open>lits s = ulits (str s)\<close>.  A \<open>hex_token\<close> is a text like \<^verbatim>\<open>#9333ea\<close>: a non-word
  character that does not occur again, followed by at least one more character, the
  last one a word character.
\<close>

definition ulits :: "ustr \<Rightarrow> regex" where
  "ulits w = map (\<lambda>c. One (Lit c)) w"

definition hex_token :: "ucd \<Rightarrow> ustr \<Rightarrow> bool" where
  "hex_token U w =
     (case w of [] \<Rightarrow> False
      | h # w' \<Rightarrow> w' \<noteq> [] \<and> h \<notin> set w' \<and> \<not> is_word U h \<and> is_word U (last w'))"

section \<open>Contexts that no match crosses\<close>

text \<open>
  Notions for following one occurrence through the rules.  An item \<open>rejects\<close> a
  character when it cannot consume it (the assertion \<^verbatim>\<open>\b\<close> consumes nothing and counts
  as not rejecting); \<open>lit_prefix\<close> is the run of literal characters a pattern begins
  with.
\<close>

fun item_rejects :: "ucd \<Rightarrow> cp \<Rightarrow> item \<Rightarrow> bool" where
  "item_rejects U c (One a) = (\<not> accepts U a c)"
| "item_rejects U c (Star a) = (\<not> accepts U a c)"
| "item_rejects U c (Plus a) = (\<not> accepts U a c)"
| "item_rejects U c WordB = False"

fun no_wordb :: "item \<Rightarrow> bool" where
  "no_wordb WordB = False"
| "no_wordb _ = True"

fun lit_prefix :: "regex \<Rightarrow> ustr" where
  "lit_prefix (One (Lit c) # ps) = c # lit_prefix ps"
| "lit_prefix _ = []"

text \<open>
  Two texts \<open>clash\<close> when they differ at a position both have.  \<open>no_start lp b\<close>: at no
  position of \<open>b\<close> does the literal prefix \<open>lp\<close> begin or continue into what follows
  \<open>b\<close>, so that no match of a pattern with this prefix begins inside \<open>b\<close>.
\<close>

fun clash :: "ustr \<Rightarrow> ustr \<Rightarrow> bool" where
  "clash (a # u) (c # v) = (if a = c then clash u v else True)"
| "clash _ _ = False"

fun no_start :: "ustr \<Rightarrow> ustr \<Rightarrow> bool" where
  "no_start lp [] = True"
| "no_start lp (c # cs) = (clash lp (c # cs) \<and> no_start lp cs)"

text \<open>
  The text \<open>b\<close> is a \<open>barrier\<close> for the pattern \<open>p\<close> when a match that begins before an
  occurrence of \<open>b\<close> ends before it and does not depend on \<open>b\<close> or on what follows.
\<close>

definition barrier :: "ucd \<Rightarrow> regex \<Rightarrow> ustr \<Rightarrow> bool" where
  "barrier U p b \<longleftrightarrow>
     (\<forall>s z. s \<noteq> [] \<longrightarrow>
        rmatch U p None (s @ b @ z) = rmatch U p None (s @ b) \<and>
        (\<forall>n. rmatch U p None (s @ b) = Some n \<longrightarrow>
           n \<le> length s \<and> (\<forall>y. rmatch U p None (s @ y) \<noteq> None)))"

text \<open>
  The test that makes \<open>b\<close> a barrier for the hex rule of the token \<open>w\<close>: \<open>b\<close> begins
  with a word character, and a proper suffix of \<open>w\<close> is neither continued by \<open>b\<close> nor
  completed by \<open>b\<close> in front of a word boundary.
\<close>

fun hex_sfx :: "ucd \<Rightarrow> ustr \<Rightarrow> ustr \<Rightarrow> bool" where
  "hex_sfx U [] b = True"
| "hex_sfx U (c # u) b =
     ((if prefix (c # u) b then word_opt U (next_cp (drop (length (c # u)) b))
       else clash (c # u) b) \<and>
      hex_sfx U u b)"

definition hex_clear :: "ucd \<Rightarrow> ustr \<Rightarrow> ustr \<Rightarrow> bool" where
  "hex_clear U w b \<longleftrightarrow> b \<noteq> [] \<and> is_word U (hd b) \<and> hex_sfx U (tl w) b"

text \<open>
  A text is \<open>free_of\<close> a pattern when the pattern matches at none of its positions.
\<close>

definition free_of :: "ucd \<Rightarrow> regex \<Rightarrow> ustr \<Rightarrow> bool" where
  "free_of U p t \<longleftrightarrow> (\<forall>a s. t = a @ s \<longrightarrow> rmatch U p None s = None)"

text \<open>
  \<open>rule_barrier\<close> decides, for the two shapes of pattern in the table, a sufficient
  condition for \<open>b\<close> to be a barrier: every item after the first rejects the first
  character of \<open>b\<close>, or the pattern is a hex rule and \<open>b\<close> is clear of its token.  A
  table is \<open>closed\<close> when no literal prefix of a pattern begins inside a replacement
  and the first eight characters of every replacement are a barrier for every
  pattern.
\<close>

fun rule_barrier :: "ucd \<Rightarrow> regex \<Rightarrow> ustr \<Rightarrow> bool" where
  "rule_barrier U (One a # ps) (c # b) =
     (if list_all (item_rejects U c) ps then True
      else One a # ps = ulits (lit_prefix (One a # ps)) @ [WordB] \<and>
           hex_token U (lit_prefix (One a # ps)) \<and>
           hex_clear U (lit_prefix (One a # ps)) (c # b))"
| "rule_barrier U _ _ = False"

definition closed_table :: "ucd \<Rightarrow> (regex \<times> ustr) list \<Rightarrow> bool" where
  "closed_table U rules \<longleftrightarrow>
     list_all (\<lambda>lp. list_all (no_start lp) (map snd rules))
       (remdups (map (\<lambda>(p, r). lit_prefix p) rules)) \<and>
     list_all (\<lambda>p. list_all (rule_barrier U p) (remdups (map (\<lambda>(p, r). take 8 r) rules)))
       (map fst rules)"

text \<open>
  \<open>keeps U b W W' k (p, r)\<close>: in a text \<open>b @ W @ Y\<close> the rule leaves \<open>b\<close>, rewrites \<open>W\<close>
  to \<open>W'\<close> with \<open>k\<close> matches and rewrites \<open>Y\<close> as it does alone, and \<open>b\<close> is a barrier
  for \<open>p\<close>.
\<close>

definition keeps :: "ucd \<Rightarrow> ustr \<Rightarrow> ustr \<Rightarrow> ustr \<Rightarrow> nat \<Rightarrow> regex \<times> ustr \<Rightarrow> bool" where
  "keeps U b W W' k pr \<longleftrightarrow>
     (case pr of (p, r) \<Rightarrow>
        rule_barrier U p b \<and> re_sub U p r None b = b \<and> findall_count U p None b = 0 \<and>
        (\<forall>Y. re_sub U p r None (b @ W @ Y) = b @ W' @ re_sub U p r None Y \<and>
             findall_count U p None (b @ W @ Y) = k + findall_count U p None Y))"

text \<open>
  The tail of the spinner pattern, \<^verbatim>\<open>color:\s*#9333ea;\<close>, and the test whether greedy
  \<^verbatim>\<open>[^}]*\<close> followed by it matches at the start of a text: whether the colour property
  occurs before the next closing brace.
\<close>

definition color_pat :: regex where
  "color_pat = lits ''color:'' @ [Star Space] @ lits ''#9333ea;''"

definition later :: "ucd \<Rightarrow> ustr \<Rightarrow> bool" where
  "later U u \<longleftrightarrow> rmatch U (Star (NotCh 125) # color_pat) None u \<noteq> None"

section \<open>Runs of the script\<close>

text \<open>
  Notions for comparing two runs of \<^verbatim>\<open>main\<close>.  A state is \<open>healthy\<close> when no write and
  no \<^verbatim>\<open>print\<close> raises; \<open>env_eq\<close> relates states with the same directory listing and the
  same faults.  \<open>tbl_run U P w w'\<close>: from \<open>w\<close> to \<open>w'\<close> the files of \<open>P\<close> that can be read
  were rewritten by the table and no other file changed.  A file is \<open>table_fixed\<close> when
  the table leaves its text as it is, \<^verbatim>\<open>App.css\<close> is \<open>spinner_fixed\<close> when the spinner
  rewrite does.  A line is \<open>quiet\<close> when it does not report a change, and a
  \<open>quiet_step\<close> leaves every file as it is, prints quiet lines only and may log writes.
  \<open>css_paths\<close> are the paths the component phase processes, and a state is \<open>settled\<close>
  when every file that a run processes is fixed (or the run ends at \<^verbatim>\<open>os.listdir\<close>).
\<close>

definition on_text :: "(ustr \<Rightarrow> ustr) \<Rightarrow> error + ustr \<Rightarrow> error + ustr" where
  "on_text f r = (case r of Inl e \<Rightarrow> Inl e | Inr t \<Rightarrow> Inr (f t))"

definition healthy :: "world \<Rightarrow> bool" where
  "healthy w \<longleftrightarrow> (\<forall>p. write_error w p = None) \<and> (\<forall>l. print_error w l = None)"

definition env_eq :: "world \<Rightarrow> world \<Rightarrow> bool" where
  "env_eq w' w \<longleftrightarrow>
     path_exists w' = path_exists w \<and> listdir w' = listdir w \<and>
     write_error w' = write_error w \<and> print_error w' = print_error w"

definition tbl_run :: "ucd \<Rightarrow> path set \<Rightarrow> world \<Rightarrow> world \<Rightarrow> bool" where
  "tbl_run U P w w' \<longleftrightarrow>
     env_eq w' w \<and>
     (\<forall>q. contents w' q =
        (if q \<in> P then on_text (rewritten U color_replacements) (contents w q)
         else contents w q))"

definition table_fixed :: "ucd \<Rightarrow> world \<Rightarrow> path \<Rightarrow> bool" where
  "table_fixed U w p \<longleftrightarrow>
     (case contents w p of Inl e \<Rightarrow> True
      | Inr t \<Rightarrow> rewritten U color_replacements t = t)"

definition spinner_fixed :: "ucd \<Rightarrow> world \<Rightarrow> bool" where
  "spinner_fixed U w \<longleftrightarrow>
     (case contents w app_css_file of Inl e \<Rightarrow> True
      | Inr t \<Rightarrow> re_sub U spinner_pat spinner_rep None t = t)"

definition quiet :: "report \<Rightarrow> bool" where
  "quiet l = (case l of Changed p n \<Rightarrow> False | _ \<Rightarrow> True)"

definition quiet_step :: "world \<Rightarrow> world \<Rightarrow> bool" where
  "quiet_step w w' \<longleftrightarrow>
     (\<exists>ls ws. w' = w\<lparr>writes := ws @ writes w, console := console w @ ls\<rparr> \<and> list_all quiet ls)"

definition css_paths :: "string list \<Rightarrow> path list" where
  "css_paths names = map (path_join component_dir) (filter (\<lambda>f. endswith f ''.css'') names)"

definition settled :: "ucd \<Rightarrow> world \<Rightarrow> bool" where
  "settled U w \<longleftrightarrow>
     (path_exists w component_dir \<and> (\<exists>e. listdir w component_dir = Inl e)) \<or>
     (\<forall>names. path_exists w component_dir \<longrightarrow> listdir w component_dir = Inr names \<longrightarrow>
        (\<forall>p \<in> set (css_paths names). table_fixed U w p)) \<and>
     (path_exists w dark_mode_file \<longrightarrow> table_fixed U w dark_mode_file) \<and>
     (path_exists w app_css_file \<longrightarrow> spinner_fixed U w)"

section \<open>The matcher and the scan: basic facts\<close>

lemma rmatch_le: "rmatch U p prev t = Some n \<Longrightarrow> n \<le> length t"
  by (induction U p prev t arbitrary: n rule: rmatch.induct)
     (auto split: if_splits option.splits)

lemma rmatch_headed_prev: "headed p \<Longrightarrow> rmatch U p prev t = rmatch U p None t"
  by (cases p rule: headed.cases; cases t; simp)

lemma rmatch_headed_Nil: "headed p \<Longrightarrow> rmatch U p prev [] = None"
  by (cases p rule: headed.cases; simp)

lemma rmatch_headed_pos: "headed p \<Longrightarrow> rmatch U p prev t = Some n \<Longrightarrow> 0 < n"
  by (cases p rule: headed.cases; cases t; auto split: if_splits)

lemma re_sub_prev: "headed p \<Longrightarrow> re_sub U p r prev t = re_sub U p r None t"
proof (induction t arbitrary: prev rule: length_induct)
  case (1 t)
  show ?case
  proof (cases t)
    case Nil
    then show ?thesis using 1(2) by (simp add: rmatch_headed_Nil)
  next
    case (Cons c cs)
    have m: "rmatch U p prev (c # cs) = rmatch U p None (c # cs)"
      using 1(2) by (rule rmatch_headed_prev)
    show ?thesis
    proof (cases "rmatch U p None (c # cs)")
      case None
      have "length cs < length t" using Cons by simp
      then have "re_sub U p r (Some c) cs = re_sub U p r None cs"
        using 1 by blast
      then show ?thesis using Cons m None by simp
    next
      case (Some n)
      then obtain k where k: "n = Suc k"
        using rmatch_headed_pos [OF 1(2) Some] by (cases n) auto
      have "length (drop k cs) < length t" using Cons by simp
      then have "re_sub U p r (Some ((c # cs) ! k)) (drop k cs) = re_sub U p r None (drop k cs)"
        using 1 by blast
      then show ?thesis using Cons m Some k by simp
    qed
  qed
qed

lemma re_sub_Nil: "headed p \<Longrightarrow> re_sub U p r prev [] = []"
  by (simp add: rmatch_headed_Nil)

lemma re_sub_Cons:
  "headed p \<Longrightarrow> re_sub U p r prev (c # cs) =
     (case rmatch U p None (c # cs) of
        None \<Rightarrow> c # re_sub U p r None cs
      | Some n \<Rightarrow> r @ re_sub U p r None (drop n (c # cs)))"
proof -
  assume h: "headed p"
  have m: "rmatch U p prev (c # cs) = rmatch U p None (c # cs)"
    using h by (rule rmatch_headed_prev)
  show ?thesis
  proof (cases "rmatch U p None (c # cs)")
    case None
    then show ?thesis using m re_sub_prev [OF h, of U r "Some c" cs] by simp
  next
    case (Some n)
    then obtain k where k: "n = Suc k"
      using rmatch_headed_pos [OF h Some] by (cases n) auto
    show ?thesis using m Some k re_sub_prev [OF h, of U r "Some ((c # cs) ! k)" "drop k cs"]
      by simp
  qed
qed

lemma findall_prev: "headed p \<Longrightarrow> findall_count U p prev t = findall_count U p None t"
proof (induction t arbitrary: prev rule: length_induct)
  case (1 t)
  show ?case
  proof (cases t)
    case Nil
    then show ?thesis using 1(2) by (simp add: rmatch_headed_Nil)
  next
    case (Cons c cs)
    have m: "rmatch U p prev (c # cs) = rmatch U p None (c # cs)"
      using 1(2) by (rule rmatch_headed_prev)
    show ?thesis
    proof (cases "rmatch U p None (c # cs)")
      case None
      have "length cs < length t" using Cons by simp
      then have "findall_count U p (Some c) cs = findall_count U p None cs"
        using 1 by blast
      then show ?thesis using Cons m None by simp
    next
      case (Some n)
      then obtain k where k: "n = Suc k"
        using rmatch_headed_pos [OF 1(2) Some] by (cases n) auto
      have "length (drop k cs) < length t" using Cons by simp
      then have "findall_count U p (Some ((c # cs) ! k)) (drop k cs) = findall_count U p None (drop k cs)"
        using 1 by blast
      then show ?thesis using Cons m Some k by simp
    qed
  qed
qed

lemma findall_Nil: "headed p \<Longrightarrow> findall_count U p prev [] = 0"
  by (simp add: rmatch_headed_Nil)

lemma findall_Cons:
  "headed p \<Longrightarrow> findall_count U p prev (c # cs) =
     (case rmatch U p None (c # cs) of
        None \<Rightarrow> findall_count U p None cs
      | Some n \<Rightarrow> Suc (findall_count U p None (drop n (c # cs))))"
proof -
  assume h: "headed p"
  have m: "rmatch U p prev (c # cs) = rmatch U p None (c # cs)"
    using h by (rule rmatch_headed_prev)
  show ?thesis
  proof (cases "rmatch U p None (c # cs)")
    case None
    then show ?thesis using m findall_prev [OF h, of U "Some c" cs] by simp
  next
    case (Some n)
    then obtain k where k: "n = Suc k"
      using rmatch_headed_pos [OF h Some] by (cases n) auto
    show ?thesis using m Some k findall_prev [OF h, of U "Some ((c # cs) ! k)" "drop k cs"]
      by simp
  qed
qed

lemma no_match_no_change: "findall_count U p prev t = 0 \<Longrightarrow> re_sub U p r prev t = t"
  by (induction U p r prev t rule: re_sub.induct) (auto split: option.splits nat.splits)

lemma distinct_head_headed: "distinct_head p r \<Longrightarrow> headed p"
  by (cases "(p, r)" rule: distinct_head.cases) auto

lemma distinct_head_match:
  "distinct_head p r \<Longrightarrow> rmatch U p prev (c # cs) = Some n \<Longrightarrow> r \<noteq> [] \<and> hd r \<noteq> c"
  by (cases "(p, r)" rule: distinct_head.cases) (auto split: if_splits)

lemma change_iff_match:
  assumes d: "distinct_head p r"
  shows "re_sub U p r None t = t \<longleftrightarrow> findall_count U p None t = 0"
proof (induction t)
  case Nil
  then show ?case using distinct_head_headed [OF d] by (simp add: rmatch_headed_Nil)
next
  case (Cons c cs)
  note h = distinct_head_headed [OF d]
  show ?case
  proof (cases "rmatch U p None (c # cs)")
    case None
    then show ?thesis using Cons
      by (simp add: re_sub_Cons [OF h] findall_Cons [OF h] del: re_sub.simps findall_count.simps)
  next
    case (Some n)
    from distinct_head_match [OF d Some] obtain b r' where r: "r = b # r'" "b \<noteq> c"
      by (cases r) auto
    show ?thesis using Some r
      by (simp add: re_sub_Cons [OF h] findall_Cons [OF h] del: re_sub.simps findall_count.simps)
  qed
qed

lemma apply_rules_step:
  assumes d: "distinct_head p r"
  shows "apply_rules U ((p, r) # rules) t c =
     apply_rules U rules (re_sub U p r None t) (c + findall_count U p None t)"
proof (cases "re_sub U p r None t = t")
  case True
  then have "findall_count U p None t = 0" using change_iff_match [OF d, of U t] by simp
  then show ?thesis using True by (simp only: apply_rules.simps Let_def) simp
next
  case False
  then show ?thesis by (simp only: apply_rules.simps Let_def) simp
qed

lemma apply_rules_spec:
  "list_all (\<lambda>(p, r). distinct_head p r) rules \<Longrightarrow>
   apply_rules U rules t c = (rewritten U rules t, c + match_total U rules t)"
proof (induction rules arbitrary: t c)
  case Nil
  then show ?case by simp
next
  case (Cons pr rules)
  obtain p r where pr: "pr = (p, r)" by (cases pr)
  from Cons.prems pr have d: "distinct_head p r" and rest: "list_all (\<lambda>(p, r). distinct_head p r) rules"
    by auto
  show ?case
    unfolding pr apply_rules_step [OF d] Cons.IH [OF rest] by simp
qed

lemma table_distinct_head: "list_all (\<lambda>(p, r). distinct_head p r) color_replacements"
  by (simp add: color_replacements_def gradient_pat_def hex_pat_def rgba_pat_def lits_def str_def)

section \<open>Literal prefixes and splitting the scan\<close>

lemma lits_ulits: "lits s = ulits (str s)"
  by (simp add: lits_def ulits_def str_def)

lemma headed_ulits: "w \<noteq> [] \<Longrightarrow> headed (ulits w @ ps)"
  by (cases w) (simp_all add: ulits_def)

lemma rmatch_ulits_app:
  "rmatch U (ulits w @ ps) prev (w @ t) =
     map_option ((+) (length w)) (rmatch U ps (if w = [] then prev else Some (last w)) t)"
proof (induction w arbitrary: prev)
  case Nil
  then show ?case by (simp add: ulits_def option.map_ident)
next
  case (Cons c w)
  define q where "q = (if w = [] then Some c else Some (last w))"
  have ih: "rmatch U (ulits w @ ps) (Some c) (w @ t) =
     map_option ((+) (length w)) (rmatch U ps q t)"
    unfolding q_def by (rule Cons)
  have u: "ulits (c # w) @ ps = One (Lit c) # (ulits w @ ps)" by (simp add: ulits_def)
  have l: "(if c # w = [] then prev else Some (last (c # w))) = q"
    by (simp add: q_def)
  show ?case
    unfolding u l
    by (cases "rmatch U ps q t") (simp_all add: ih)
qed

lemma rmatch_ulits_prefix:
  "rmatch U (ulits w @ ps) prev t = Some n \<Longrightarrow> prefix w t"
proof (induction w arbitrary: prev t n)
  case Nil
  then show ?case by simp
next
  case (Cons c w)
  then show ?case
    by (cases t) (auto simp add: ulits_def split: if_splits)
qed

lemma rmatch_hex:
  assumes "w \<noteq> []" "is_word U (last w)"
  shows "rmatch U (ulits w @ [WordB]) prev t =
     (if prefix w t \<and> \<not> word_opt U (next_cp (drop (length w) t)) then Some (length w) else None)"
proof (cases "prefix w t")
  case True
  then obtain t' where t: "t = w @ t'" by (auto simp add: prefix_def)
  show ?thesis
    using assms by (simp add: t rmatch_ulits_app at_boundary_def word_opt_def)
next
  case False
  then have "rmatch U (ulits w @ [WordB]) prev t = None"
    using rmatch_ulits_prefix [of U w "[WordB]" prev t] by (cases "rmatch U (ulits w @ [WordB]) prev t") auto
  then show ?thesis using False by simp
qed

text \<open>The scan of a text in two parts, when no match that starts in the first part
  depends on the second.\<close>

lemma re_sub_append:
  assumes h: "headed p"
    and ind: "\<And>a s. pre = a @ s \<Longrightarrow> s \<noteq> [] \<Longrightarrow> rmatch U p None (s @ y) = rmatch U p None s"
  shows "re_sub U p r None (pre @ y) = re_sub U p r None pre @ re_sub U p r None y
       \<and> findall_count U p None (pre @ y) = findall_count U p None pre + findall_count U p None y"
  using ind
proof (induction pre rule: length_induct)
  case (1 pre)
  show ?case
  proof (cases pre)
    case Nil
    then show ?thesis using h by (simp add: re_sub_Nil findall_Nil del: re_sub.simps findall_count.simps)
  next
    case (Cons c cs)
    have m: "rmatch U p None ((c # cs) @ y) = rmatch U p None (c # cs)"
      using 1(2) [of "[]" pre] Cons by simp
    show ?thesis
    proof (cases "rmatch U p None (c # cs)")
      case None
      have ih: "re_sub U p r None (cs @ y) = re_sub U p r None cs @ re_sub U p r None y
       \<and> findall_count U p None (cs @ y) = findall_count U p None cs + findall_count U p None y"
      proof -
        have "length cs < length pre" using Cons by simp
        moreover have "\<And>a s. cs = a @ s \<Longrightarrow> s \<noteq> [] \<Longrightarrow> rmatch U p None (s @ y) = rmatch U p None s"
          using 1(2) Cons by (metis append_Cons)
        ultimately show ?thesis using 1(1) by blast
      qed
      show ?thesis using Cons None m ih
        by (simp add: re_sub_Cons [OF h] findall_Cons [OF h] del: re_sub.simps findall_count.simps)
    next
      case (Some n)
      have n: "0 < n" "n \<le> length (c # cs)"
        using rmatch_headed_pos [OF h Some] rmatch_le [OF Some] by auto
      have ih: "re_sub U p r None (drop n pre @ y) = re_sub U p r None (drop n pre) @ re_sub U p r None y
       \<and> findall_count U p None (drop n pre @ y) = findall_count U p None (drop n pre) + findall_count U p None y"
      proof -
        have "length (drop n pre) < length pre" using Cons n by simp
        moreover have "\<And>a s. drop n pre = a @ s \<Longrightarrow> s \<noteq> [] \<Longrightarrow> rmatch U p None (s @ y) = rmatch U p None s"
        proof -
          fix a s assume "drop n pre = a @ s" "s \<noteq> []"
          then have "pre = (take n pre @ a) @ s" by (metis append_assoc append_take_drop_id)
          then show "rmatch U p None (s @ y) = rmatch U p None s" using 1(2) \<open>s \<noteq> []\<close> by blast
        qed
        ultimately show ?thesis using 1(1) by blast
      qed
      have d: "drop n (c # cs @ y) = drop n pre @ y"
        using drop_append [of n "c # cs" y] n Cons by simp
      show ?thesis using Cons Some m ih d
        by (simp add: re_sub_Cons [OF h] findall_Cons [OF h] del: re_sub.simps findall_count.simps)
    qed
  qed
qed

lemma no_match_copy:
  assumes h: "headed p"
    and nm: "\<And>a s. x = a @ s \<Longrightarrow> s \<noteq> [] \<Longrightarrow> rmatch U p None s = None"
  shows "re_sub U p r None x = x \<and> findall_count U p None x = 0"
  using nm
proof (induction x)
  case Nil
  then show ?case using h by (simp add: re_sub_Nil findall_Nil del: re_sub.simps findall_count.simps)
next
  case (Cons c cs)
  have m: "rmatch U p None (c # cs) = None" using Cons.prems [of "[]" "c # cs"] by simp
  have "\<And>a s. cs = a @ s \<Longrightarrow> s \<noteq> [] \<Longrightarrow> rmatch U p None s = None"
    using Cons.prems by (metis append_Cons)
  then have "re_sub U p r None cs = cs \<and> findall_count U p None cs = 0" by (rule Cons.IH)
  then show ?case using m
    by (simp add: re_sub_Cons [OF h] findall_Cons [OF h] del: re_sub.simps findall_count.simps)
qed

lemma hex_token_parts:
  assumes "hex_token U w"
  obtains h w' where "w = h # w'" "w' \<noteq> []" "h \<notin> set w'" "\<not> is_word U h" "is_word U (last w)"
  using assms by (cases w) (auto simp add: hex_token_def)

lemma hex_match:
  assumes "hex_token U w"
  shows "rmatch U (ulits w @ [WordB]) prev t =
     (if prefix w t \<and> \<not> word_opt U (next_cp (drop (length w) t)) then Some (length w) else None)"
proof -
  from assms obtain h w' where "w = h # w'" "is_word U (last w)" by (rule hex_token_parts)
  then show ?thesis using rmatch_hex [of w U prev t] by simp
qed

text \<open>No occurrence of the token straddles the end of a text that the token follows.\<close>
lemma hex_no_straddle:
  assumes tk: "hex_token U w" and s: "s \<noteq> []" and p: "prefix w (s @ w @ post)"
  shows "prefix w s"
proof (rule ccontr)
  assume np: "\<not> prefix w s"
  from tk obtain h w' where w: "w = h # w'" "h \<notin> set w'" by (rule hex_token_parts)
  from p have "prefix w s \<or> prefix s w" by (metis prefix_append prefix_same_cases prefix_order.order_refl append_prefixD)
  with np have "prefix s w" by simp
  then obtain u where u: "w = s @ u" by (auto simp add: prefix_def)
  with np have une: "u \<noteq> []" by auto
  from p u have "prefix u (w @ post)" by (metis append_assoc same_prefix_prefix)
  with une w have "hd u = h" by (cases u) (auto simp add: prefix_def)
  moreover from s u w obtain s' where "s = h # s'" by (cases s) auto
  with u w have "w' = s' @ u" by simp
  with une have "hd u \<in> set w'" by (cases u) auto
  ultimately show False using w by simp
qed

lemma hex_ctx:
  assumes tk: "hex_token U w" and s: "s \<noteq> []"
  shows "rmatch U (ulits w @ [WordB]) None (s @ w @ post) = rmatch U (ulits w @ [WordB]) None s"
proof (cases "prefix w s")
  case True
  then obtain s' where s': "s = w @ s'" by (auto simp add: prefix_def)
  from tk obtain h w' where w: "w = h # w'" "\<not> is_word U h" by (rule hex_token_parts)
  have nw: "\<not> word_opt U (next_cp (w @ x))" for x
    using w by (simp add: next_cp_def word_opt_def)
  have e: "next_cp [] = None" "\<not> word_opt U None" "next_cp (a # x @ y) = next_cp (a # x)" for a x y
    by (simp_all add: next_cp_def word_opt_def)
  show ?thesis
    using nw e by (cases s') (simp_all add: hex_match [OF tk] s')
next
  case False
  then have "\<not> prefix w (s @ w @ post)" using hex_no_straddle [OF tk s] by blast
  then show ?thesis using False by (simp add: hex_match [OF tk])
qed

lemma hex_sub_here:
  assumes tk: "hex_token U w"
  shows "re_sub U (ulits w @ [WordB]) r None (w @ post) =
           (if word_opt U (next_cp post) then w else r) @ re_sub U (ulits w @ [WordB]) r None post
       \<and> findall_count U (ulits w @ [WordB]) None (w @ post) =
           (if word_opt U (next_cp post) then 0 else 1) + findall_count U (ulits w @ [WordB]) None post"
proof -
  define p where "p = ulits w @ [WordB]"
  from tk obtain h w' where w: "w = h # w'" "w' \<noteq> []" "h \<notin> set w'" by (rule hex_token_parts)
  define t where "t = w' @ post"
  have wp: "w @ post = h # t" using w by (simp add: t_def)
  have hd: "headed p" using w by (simp add: headed_ulits p_def)
  have pm: "rmatch U p prev x =
     (if prefix w x \<and> \<not> word_opt U (next_cp (drop (length w) x)) then Some (length w) else None)"
    for prev x
    unfolding p_def by (rule hex_match [OF tk])
  have m: "rmatch U p None (h # t) =
      (if word_opt U (next_cp post) then None else Some (length w))"
    using pm [of None "w @ post"] by (simp add: wp [symmetric])
  have s1: "re_sub U p r None (h # t) =
     (case rmatch U p None (h # t) of
        None \<Rightarrow> h # re_sub U p r None t
      | Some n \<Rightarrow> r @ re_sub U p r None (drop n (h # t)))"
    by (rule re_sub_Cons [OF hd])
  have c1: "findall_count U p None (h # t) =
     (case rmatch U p None (h # t) of
        None \<Rightarrow> findall_count U p None t
      | Some n \<Rightarrow> Suc (findall_count U p None (drop n (h # t))))"
    by (rule findall_Cons [OF hd])
  have dr: "drop (length w) (h # t) = post" using wp by (metis append_eq_conv_conj)
  have goal: "re_sub U p r None (h # t) =
           (if word_opt U (next_cp post) then w else r) @ re_sub U p r None post
       \<and> findall_count U p None (h # t) =
           (if word_opt U (next_cp post) then 0 else 1) + findall_count U p None post"
  proof (cases "word_opt U (next_cp post)")
    case False
    then show ?thesis unfolding s1 c1 m by (simp add: dr)
  next
    case True
    have inner: "rmatch U p None (s @ y) = None" if "w' = a @ s" "s \<noteq> []" for a s y
    proof -
      from that have "hd s \<in> set w'" by (cases s) auto
      then have "hd s \<noteq> h" using w by auto
      then have "\<not> prefix w (s @ y)" using w that by (cases s) auto
      then show ?thesis by (simp add: pm)
    qed
    have a: "re_sub U p r None (w' @ post) = re_sub U p r None w' @ re_sub U p r None post
       \<and> findall_count U p None (w' @ post) = findall_count U p None w' + findall_count U p None post"
    proof (rule re_sub_append [OF hd])
      fix a s assume "w' = a @ s" "s \<noteq> []"
      then show "rmatch U p None (s @ post) = rmatch U p None s"
        using inner [of a s post] inner [of a s "[]"] by simp
    qed
    have b: "re_sub U p r None w' = w' \<and> findall_count U p None w' = 0"
    proof (rule no_match_copy [OF hd])
      fix a s assume "w' = a @ s" "s \<noteq> []"
      then show "rmatch U p None s = None" using inner [of a s "[]"] by simp
    qed
    have wt: "w @ re_sub U p r None post = h # w' @ re_sub U p r None post" using w by simp
    show ?thesis unfolding s1 c1 m using True a b by (simp add: t_def wt)
  qed
  then show ?thesis unfolding wp p_def .
qed

lemma hex_sub_token:
  assumes tk: "hex_token U w"
  shows "re_sub U (ulits w @ [WordB]) r None (pre @ w @ post) =
           re_sub U (ulits w @ [WordB]) r None pre @
           (if word_opt U (next_cp post) then w else r) @
           re_sub U (ulits w @ [WordB]) r None post
       \<and> findall_count U (ulits w @ [WordB]) None (pre @ w @ post) =
           findall_count U (ulits w @ [WordB]) None pre +
           (if word_opt U (next_cp post) then 0 else 1) +
           findall_count U (ulits w @ [WordB]) None post"
proof -
  let ?p = "ulits w @ [WordB]"
  from tk obtain h w' where w: "w = h # w'" by (rule hex_token_parts)
  have hd: "headed ?p" using w by (simp add: headed_ulits)
  have "re_sub U ?p r None (pre @ (w @ post)) = re_sub U ?p r None pre @ re_sub U ?p r None (w @ post)
       \<and> findall_count U ?p None (pre @ (w @ post)) = findall_count U ?p None pre + findall_count U ?p None (w @ post)"
    using hex_ctx [OF tk] by (intro re_sub_append [OF hd]) simp
  then show ?thesis using hex_sub_here [OF tk, of r post] by simp
qed

section \<open>Rewriting around a barrier\<close>

lemma clash_iff: "clash u v \<longleftrightarrow> \<not> (prefix u v \<or> prefix v u)"
  by (induction u v rule: clash.induct) auto

lemma rmatch_rejects:
  "list_all (item_rejects U c) ps \<Longrightarrow> rmatch U ps prev (x @ c # z) = rmatch U ps prev x"
  by (induction U ps prev x rule: rmatch.induct) (auto split: option.splits)

lemma rejects_no_wordb: "list_all (item_rejects U c) ps \<Longrightarrow> list_all no_wordb ps"
  by (induction ps) (auto elim: item_rejects.elims)

lemma rmatch_extend:
  "list_all no_wordb ps \<Longrightarrow> rmatch U ps prev x = Some n \<Longrightarrow>
     \<exists>n'. rmatch U ps prev (x @ y) = Some n'"
proof (induction U ps prev x arbitrary: n rule: rmatch.induct)
  case (1 U prev t)
  then show ?case by simp
next
  case (2 U a ps prev)
  then show ?case by simp
next
  case (3 U a ps prev c t)
  then show ?case by (auto split: if_splits)
next
  case (4 U a ps prev)
  then show ?case by simp
next
  case (5 U a ps prev c t)
  then show ?case by (auto split: if_splits)
next
  case (6 U a ps prev)
  then have nw: "list_all no_wordb ps" and m: "rmatch U ps prev [] = Some n" by auto
  from "6.IH" [OF nw m] obtain k where k: "rmatch U ps prev y = Some k" by auto
  show ?case
  proof (cases y)
    case Nil
    then show ?thesis using m by simp
  next
    case (Cons c y')
    then show ?thesis using k
      by (cases "rmatch U (Star a # ps) (Some c) y'") auto
  qed
next
  case (7 U a ps prev c t)
  then have nw: "list_all no_wordb ps" by simp
  show ?case
  proof (cases "accepts U a c")
    case False
    then show ?thesis using 7 nw by auto
  next
    case True
    show ?thesis
    proof (cases "rmatch U (Star a # ps) (Some c) t")
      case (Some k)
      from "7.IH"(1) [OF True _ Some] "7.prems"(1) obtain k' where
        "rmatch U (Star a # ps) (Some c) (t @ y) = Some k'" by auto
      then show ?thesis using True by simp
    next
      case None
      then have "rmatch U ps prev (c # t) = Some n" using "7.prems" True by simp
      from "7.IH"(2) [OF True None nw this] obtain k' where
        k': "rmatch U ps prev ((c # t) @ y) = Some k'" by auto
      show ?thesis using True k'
        by (cases "rmatch U (Star a # ps) (Some c) (t @ y)") auto
    qed
  qed
next
  case (8 U ps prev t)
  then show ?case by simp
qed

lemma rmatch_lit_prefix: "rmatch U p prev t = Some n \<Longrightarrow> prefix (lit_prefix p) t"
proof (induction p arbitrary: prev t n rule: lit_prefix.induct)
  case (1 c ps)
  then show ?case by (cases t) (auto split: if_splits)
qed simp_all

lemma no_start_suffix:
  "no_start lp b \<Longrightarrow> b = a @ s \<Longrightarrow> s \<noteq> [] \<Longrightarrow> \<not> (prefix lp s \<or> prefix s lp)"
proof (induction b arbitrary: a)
  case Nil
  then show ?case by simp
next
  case (Cons c cs)
  show ?case
  proof (cases a)
    case Nil
    then show ?thesis using Cons.prems by (auto simp add: clash_iff)
  next
    case (Cons d a')
    then have "cs = a' @ s" using Cons.prems by simp
    then show ?thesis using Cons.IH Cons.prems by auto
  qed
qed

lemma no_start_inert:
  assumes "no_start (lit_prefix p) b" "b = a @ s" "s \<noteq> []"
  shows "rmatch U p prev (s @ z) = None"
proof (cases "rmatch U p prev (s @ z)")
  case (Some n)
  then have "prefix (lit_prefix p) (s @ z)" by (rule rmatch_lit_prefix)
  then have "prefix (lit_prefix p) s \<or> prefix s (lit_prefix p)"
    by (metis prefix_append prefixI)
  then show ?thesis using no_start_suffix [OF assms] by simp
qed simp

lemma barrierD1: "barrier U p b \<Longrightarrow> s \<noteq> [] \<Longrightarrow> rmatch U p None (s @ b @ z) = rmatch U p None (s @ b)"
  by (simp add: barrier_def)

lemma barrierD2: "barrier U p b \<Longrightarrow> s \<noteq> [] \<Longrightarrow> rmatch U p None (s @ b @ z) = Some n \<Longrightarrow> n \<le> length s"
  by (simp add: barrier_def)

lemma barrierD3: "barrier U p b \<Longrightarrow> s \<noteq> [] \<Longrightarrow> rmatch U p None (s @ b @ z) = Some n \<Longrightarrow>
    rmatch U p None (s @ y) \<noteq> None"
  by (simp add: barrier_def)

lemma headed_rejects:
  assumes "list_all (item_rejects U c) ps" "s \<noteq> []"
  shows "rmatch U (One a # ps) prev (s @ c # z) = rmatch U (One a # ps) prev s"
  using assms by (cases s) (simp_all add: rmatch_rejects)

lemma barrier_N:
  assumes r: "list_all (item_rejects U c) ps"
  shows "barrier U (One a # ps) (c # b)"
proof -
  have nw: "list_all no_wordb (One a # ps)" using rejects_no_wordb [OF r] by simp
  have e: "rmatch U (One a # ps) None (s @ (c # b) @ z) = rmatch U (One a # ps) None s"
    if "s \<noteq> []" for s z
    using headed_rejects [OF r that, of a None "b @ z"] by simp
  show ?thesis
    unfolding barrier_def
  proof (intro allI impI conjI)
    fix s z assume s: "s \<noteq> ([]::ustr)"
    show "rmatch U (One a # ps) None (s @ (c # b) @ z) = rmatch U (One a # ps) None (s @ c # b)"
      using e [OF s, of z] e [OF s, of "[]"] by simp
  next
    fix s z n assume s: "s \<noteq> ([]::ustr)" and m: "rmatch U (One a # ps) None (s @ c # b) = Some n"
    from m e [OF s, of "[]"] have ms: "rmatch U (One a # ps) None s = Some n" by simp
    show "n \<le> length s" using rmatch_le [OF ms] .
  next
    fix s z n y assume s: "s \<noteq> ([]::ustr)" and m: "rmatch U (One a # ps) None (s @ c # b) = Some n"
    from m e [OF s, of "[]"] have ms: "rmatch U (One a # ps) None s = Some n" by simp
    from rmatch_extend [OF nw ms, of y] show "rmatch U (One a # ps) None (s @ y) \<noteq> None" by auto
  qed
qed

lemma hex_sfx_suffix:
  "hex_sfx U v b \<Longrightarrow> v = a @ u \<Longrightarrow> u \<noteq> [] \<Longrightarrow>
     (if prefix u b then word_opt U (next_cp (drop (length u) b)) else clash u b)"
proof (induction v arbitrary: a)
  case Nil
  then show ?case by simp
next
  case (Cons c v)
  show ?case
  proof (cases a)
    case Nil
    then have "u = c # v" using Cons.prems by simp
    then show ?thesis using Cons.prems(1) by (simp split: if_splits)
  next
    case (Cons d a')
    then have v: "v = a' @ u" using Cons.prems by simp
    from Cons.prems(1) have "hex_sfx U v b" by simp
    then show ?thesis using v Cons.prems(3) by (rule Cons.IH)
  qed
qed

text \<open>A match of a hex rule that begins before the barrier lies, with the character
  after it, before the barrier.\<close>

lemma hex_before_barrier:
  assumes tk: "hex_token U w" and cl: "hex_clear U w b" and s: "s \<noteq> []"
    and p: "prefix w (s @ b @ z)"
    and nb: "\<not> word_opt U (next_cp (drop (length w) (s @ b @ z)))"
  shows "prefix w s \<and> length w < length s"
proof -
  from cl have bne: "b \<noteq> []" and wb: "is_word U (hd b)"
    and sf: "hex_sfx U (tl w) b" by (simp_all add: hex_clear_def)
  from tk obtain h w' where w: "w = h # w'" by (rule hex_token_parts)
  show ?thesis
  proof (cases "length w \<le> length s")
    case True
    with p have ps: "prefix w s" by (metis prefix_length_prefix prefixI)
    have "length w \<noteq> length s"
    proof
      assume "length w = length s"
      with ps have "s = w" by (auto simp add: prefix_def)
      then have "next_cp (drop (length w) (s @ b @ z)) = Some (hd b)"
        using bne by (cases b) (simp_all add: next_cp_def)
      then show False using nb wb by (simp add: word_opt_def)
    qed
    then show ?thesis using ps True by simp
  next
    case False
    then have ls: "length s < length w" by simp
    from p have "prefix s w" using ls
      by (metis prefix_length_prefix prefixI less_imp_le_nat)
    then obtain u where u: "w = s @ u" by (auto simp add: prefix_def)
    with ls have une: "u \<noteq> []" by auto
    from s u w obtain s' where s': "s = h # s'" by (cases s) auto
    then have tlw: "tl w = s' @ u" using u by simp
    from p u have pu: "prefix u (b @ z)" by (metis append_assoc same_prefix_prefix)
    then have cmp: "prefix u b \<or> prefix b u" by (metis prefix_append prefixI)
    note c = hex_sfx_suffix [OF sf tlw une]
    have pub: "prefix u b" using c cmp by (auto simp add: clash_iff split: if_splits)
    then have wo: "word_opt U (next_cp (drop (length u) b))" using c by simp
    then have dne: "drop (length u) b \<noteq> []" by (auto simp add: next_cp_def word_opt_def)
    have "drop (length w) (s @ b @ z) = drop (length u) (b @ z)" using u by simp
    also have "next_cp \<dots> = next_cp (drop (length u) b)"
      using dne by (cases "drop (length u) b") (simp_all add: next_cp_def)
    finally show ?thesis using nb wo by simp
  qed
qed

lemma hex_inside:
  assumes tk: "hex_token U w" and ps: "prefix w s" and l: "length w < length s"
  shows "rmatch U (ulits w @ [WordB]) None (s @ y) = rmatch U (ulits w @ [WordB]) None s"
proof -
  from ps obtain t where t: "s = w @ t" by (auto simp add: prefix_def)
  with l have "t \<noteq> []" by auto
  then obtain c t' where "t = c # t'" by (cases t) auto
  then show ?thesis using t by (simp add: hex_match [OF tk] next_cp_def)
qed

lemma barrier_H:
  assumes tk: "hex_token U w" and cl: "hex_clear U w b"
  shows "barrier U (ulits w @ [WordB]) b"
proof -
  let ?M = "rmatch U (ulits w @ [WordB]) None"
  have key: "prefix w s \<and> length w < length s" if "s \<noteq> []" "?M (s @ b @ z) = Some n" for s z n
    using that hex_before_barrier [OF tk cl that(1), of z]
    by (simp add: hex_match [OF tk] split: if_splits)
  have same: "?M (s @ b @ z) = ?M (s @ b)" if s: "s \<noteq> []" for s z
  proof (cases "?M (s @ b @ z)")
    case (Some n)
    from key [OF s Some] have "?M (s @ b @ z) = ?M s" "?M (s @ b) = ?M s"
      using hex_inside [OF tk] by auto
    then show ?thesis by simp
  next
    case None
    show ?thesis
    proof (cases "?M (s @ b)")
      case (Some n)
      then have "?M (s @ b @ []) = Some n" by simp
      from key [OF s this] have "?M (s @ b @ z) = ?M s" "?M (s @ b) = ?M s"
        using hex_inside [OF tk] by auto
      then show ?thesis by simp
    next
      case None
      then show ?thesis using \<open>?M (s @ b @ z) = None\<close> by simp
    qed
  qed
  show ?thesis
    unfolding barrier_def
  proof (intro allI impI conjI)
    fix s z assume "s \<noteq> ([]::ustr)"
    then show "?M (s @ b @ z) = ?M (s @ b)" by (rule same)
  next
    fix s z n assume s: "s \<noteq> ([]::ustr)" and m: "?M (s @ b) = Some n"
    then have m': "?M (s @ b @ []) = Some n" by simp
    from key [OF s m'] have "?M (s @ b) = ?M s" using hex_inside [OF tk] by auto
    with m have "?M s = Some n" by simp
    then show "n \<le> length s" by (rule rmatch_le)
  next
    fix s z n y assume s: "s \<noteq> ([]::ustr)" and m: "?M (s @ b) = Some n"
    then have m': "?M (s @ b @ []) = Some n" by simp
    from key [OF s m'] have "?M (s @ b) = ?M s" "?M (s @ y) = ?M s"
      using hex_inside [OF tk] by auto
    with m show "?M (s @ y) \<noteq> None" by simp
  qed
qed

lemma ctx_split:
  assumes h: "headed p" and b: "barrier U p b"
  shows "\<exists>A k. \<forall>z. re_sub U p r None (x @ b @ z) = A @ re_sub U p r None (b @ z)
            \<and> findall_count U p None (x @ b @ z) = k + findall_count U p None (b @ z)"
proof (induction x rule: length_induct)
  case (1 x)
  show ?case
  proof (cases x)
    case Nil
    have "\<forall>z. re_sub U p r None ([] @ b @ z) = [] @ re_sub U p r None (b @ z)
            \<and> findall_count U p None ([] @ b @ z) = 0 + findall_count U p None (b @ z)"
      by simp
    then show ?thesis unfolding Nil by blast
  next
    case (Cons c cs)
    have all: "rmatch U p None (c # cs @ b @ z) = rmatch U p None (c # cs @ b)" for z
      using barrierD1 [OF b, of "c # cs" z] by simp
    show ?thesis
    proof (cases "rmatch U p None (c # cs @ b)")
      case None
      have "length cs < length x" using Cons by simp
      with 1 obtain A k where ih: "\<And>z. re_sub U p r None (cs @ b @ z) = A @ re_sub U p r None (b @ z)
            \<and> findall_count U p None (cs @ b @ z) = k + findall_count U p None (b @ z)"
        by blast
      have "\<forall>z. re_sub U p r None (x @ b @ z) = (c # A) @ re_sub U p r None (b @ z)
            \<and> findall_count U p None (x @ b @ z) = k + findall_count U p None (b @ z)"
        using None all ih Cons
        by (simp add: re_sub_Cons [OF h] findall_Cons [OF h] del: re_sub.simps findall_count.simps)
      then show ?thesis by blast
    next
      case (Some n)
      then have "rmatch U p None ((c # cs) @ b @ []) = Some n" by simp
      from barrierD2 [OF b _ this] have nl: "n \<le> length (c # cs)" by simp
      have np: "0 < n" using rmatch_headed_pos [OF h Some] .
      have "length (drop n x) < length x" using Cons np by simp
      with 1 obtain A k where ih: "\<And>z. re_sub U p r None (drop n x @ b @ z) = A @ re_sub U p r None (b @ z)
            \<and> findall_count U p None (drop n x @ b @ z) = k + findall_count U p None (b @ z)"
        by blast
      have d: "drop n (c # cs @ b @ z) = drop n x @ b @ z" for z
        using drop_append [of n "c # cs" "b @ z"] nl Cons by simp
      have "\<forall>z. re_sub U p r None (x @ b @ z) = (r @ A) @ re_sub U p r None (b @ z)
            \<and> findall_count U p None (x @ b @ z) = Suc k + findall_count U p None (b @ z)"
        using Some all ih Cons d
        by (simp add: re_sub_Cons [OF h] findall_Cons [OF h] del: re_sub.simps findall_count.simps)
      then show ?thesis by blast
    qed
  qed
qed

lemma sub_first:
  assumes h: "headed p"
  shows "re_sub U p r None t = t \<or>
     (\<exists>u v n. t = u @ v \<and> rmatch U p None v = Some n \<and>
        re_sub U p r None t = u @ r @ re_sub U p r None (drop n v))"
proof (induction t)
  case Nil
  then show ?case using h by (simp add: re_sub_Nil del: re_sub.simps)
next
  case (Cons c cs)
  show ?case
  proof (cases "rmatch U p None (c # cs)")
    case (Some n)
    then have "c # cs = [] @ (c # cs) \<and> rmatch U p None (c # cs) = Some n \<and>
        re_sub U p r None (c # cs) = [] @ r @ re_sub U p r None (drop n (c # cs))"
      by (simp add: re_sub_Cons [OF h] del: re_sub.simps)
    then show ?thesis by blast
  next
    case None
    then have e: "re_sub U p r None (c # cs) = c # re_sub U p r None cs"
      by (simp add: re_sub_Cons [OF h] del: re_sub.simps)
    from Cons show ?thesis
    proof
      assume "re_sub U p r None cs = cs"
      then show ?thesis using e by simp
    next
      assume "\<exists>u v n. cs = u @ v \<and> rmatch U p None v = Some n \<and>
        re_sub U p r None cs = u @ r @ re_sub U p r None (drop n v)"
      then obtain u v n where "cs = u @ v" "rmatch U p None v = Some n"
        "re_sub U p r None cs = u @ r @ re_sub U p r None (drop n v)" by blast
      then have "c # cs = (c # u) @ v \<and> rmatch U p None v = Some n \<and>
        re_sub U p r None (c # cs) = (c # u) @ r @ re_sub U p r None (drop n v)"
        using e by simp
      then show ?thesis by blast
    qed
  qed
qed

text \<open>Where rule \<open>j\<close> finds no match, rule \<open>k\<close> finds none either: then the output of
  rule \<open>j\<close> holds no match of rule \<open>k\<close>.\<close>

lemma free_sub:
  assumes hk: "headed pk" and hj: "headed pj"
    and bar: "barrier U pk rj" and ns: "no_start (lit_prefix pk) rj"
    and imp: "\<And>a s. t = a @ s \<Longrightarrow> rmatch U pj None s = None \<Longrightarrow> rmatch U pk None s = None"
  shows "free_of U pk (re_sub U pj rj None t)"
  using imp
proof (induction t rule: length_induct)
  case (1 t)
  note imp = 1(2)
  show ?case
  proof (cases t)
    case Nil
    then show ?thesis using hj hk
      by (simp add: free_of_def re_sub_Nil rmatch_headed_Nil del: re_sub.simps)
  next
    case (Cons c cs)
    show ?thesis
    proof (cases "rmatch U pj None (c # cs)")
      case (Some n)
      have np: "0 < n" using rmatch_headed_pos [OF hj Some] .
      define t' where "t' = drop n t"
      have e: "re_sub U pj rj None t = rj @ re_sub U pj rj None t'"
        using Some Cons by (simp add: t'_def re_sub_Cons [OF hj] del: re_sub.simps)
      have lt: "length t' < length t" using Cons np by (simp add: t'_def)
      have "\<And>a s. t' = a @ s \<Longrightarrow> rmatch U pj None s = None \<Longrightarrow> rmatch U pk None s = None"
      proof -
        fix a s assume "t' = a @ s" "rmatch U pj None s = None"
        moreover from \<open>t' = a @ s\<close> have "t = (take n t @ a) @ s"
          unfolding t'_def by (metis append_assoc append_take_drop_id)
        ultimately show "rmatch U pk None s = None" using imp by blast
      qed
      with 1(1) lt have ih: "free_of U pk (re_sub U pj rj None t')" by blast
      show ?thesis
        unfolding free_of_def e
      proof (intro allI impI)
        fix a s assume as: "rj @ re_sub U pj rj None t' = a @ s"
        then consider (in_r) v where "rj = a @ v" "v \<noteq> []" "s = v @ re_sub U pj rj None t'"
          | (in_t) v where "a = rj @ v" "re_sub U pj rj None t' = v @ s"
          by (auto simp add: append_eq_append_conv2) (metis append_Nil2 self_append_conv2)
        then show "rmatch U pk None s = None"
        proof cases
          case in_r
          then show ?thesis using no_start_inert [OF ns in_r(1) in_r(2)] by simp
        next
          case in_t
          then show ?thesis using ih by (simp add: free_of_def)
        qed
      qed
    next
      case None
      have e: "re_sub U pj rj None t = c # re_sub U pj rj None cs"
        using None Cons by (simp add: re_sub_Cons [OF hj] del: re_sub.simps)
      have lt: "length cs < length t" using Cons by simp
      have "\<And>a s. cs = a @ s \<Longrightarrow> rmatch U pj None s = None \<Longrightarrow> rmatch U pk None s = None"
        using imp Cons by (metis append_Cons)
      with 1(1) lt have ih: "free_of U pk (re_sub U pj rj None cs)" by blast
      have k0: "rmatch U pk None (c # cs) = None" using imp [of "[]" t] None Cons by simp
      have top: "rmatch U pk None (c # re_sub U pj rj None cs) = None"
      proof (cases "re_sub U pj rj None cs = cs")
        case True
        then show ?thesis using k0 by simp
      next
        case False
        with sub_first [OF hj, of U rj cs] obtain u v n where
          uv: "cs = u @ v" "re_sub U pj rj None cs = u @ rj @ re_sub U pj rj None (drop n v)"
          by blast
        show ?thesis
        proof (cases "rmatch U pk None (c # re_sub U pj rj None cs)")
          case (Some m)
          then have "rmatch U pk None ((c # u) @ rj @ re_sub U pj rj None (drop n v)) = Some m"
            using uv by simp
          from barrierD3 [OF bar _ this, of v] have "rmatch U pk None (c # cs) \<noteq> None"
            using uv by simp
          then show ?thesis using k0 by simp
        qed simp
      qed
      show ?thesis
        unfolding free_of_def e
      proof (intro allI impI)
        fix a s assume as: "c # re_sub U pj rj None cs = a @ s"
        show "rmatch U pk None s = None"
        proof (cases a)
          case Nil
          then show ?thesis using as top by simp
        next
          case (Cons d a')
          then have "re_sub U pj rj None cs = a' @ s" using as by simp
          then show ?thesis using ih by (simp add: free_of_def)
        qed
      qed
    qed
  qed
qed

lemma free_of_copy:
  assumes "headed p" "free_of U p t"
  shows "re_sub U p r None t = t \<and> findall_count U p None t = 0"
  using assms no_match_copy [of p t U r] by (simp add: free_of_def)

lemma barrier_append: "barrier U p b \<Longrightarrow> barrier U p (b @ b')"
  unfolding barrier_def
proof (intro allI impI conjI)
  fix s z assume b: "\<forall>s z. s \<noteq> [] \<longrightarrow>
        rmatch U p None (s @ b @ z) = rmatch U p None (s @ b) \<and>
        (\<forall>n. rmatch U p None (s @ b) = Some n \<longrightarrow>
           n \<le> length s \<and> (\<forall>y. rmatch U p None (s @ y) \<noteq> None))" and s: "s \<noteq> ([]::ustr)"
  have e: "rmatch U p None (s @ b @ x) = rmatch U p None (s @ b)" for x using b s by blast
  show "rmatch U p None (s @ (b @ b') @ z) = rmatch U p None (s @ b @ b')"
    using e [of "b' @ z"] e [of b'] by simp
  {
    fix n assume "rmatch U p None (s @ b @ b') = Some n"
    then have m: "rmatch U p None (s @ b) = Some n" using e [of b'] by simp
    show "n \<le> length s" using b s m by blast
    fix y show "rmatch U p None (s @ y) \<noteq> None" using b s m by blast
  }
qed

lemma rule_barrier_sound:
  assumes "rule_barrier U p b"
  shows "headed p \<and> barrier U p b"
proof (cases "(U, p, b)" rule: rule_barrier.cases)
  case (1 U' a ps c b')
  then have p: "p = One a # ps" and b: "b = c # b'" by simp_all
  from assms consider "list_all (item_rejects U c) ps"
    | "p = ulits (lit_prefix p) @ [WordB]" "hex_token U (lit_prefix p)" "hex_clear U (lit_prefix p) b"
    unfolding p b by (auto split: if_splits)
  then have "barrier U p b"
  proof cases
    case 1
    then show ?thesis unfolding p b by (rule barrier_N)
  next
    case 2
    from barrier_H [OF 2(2) 2(3)] 2(1) show ?thesis by simp
  qed
  then show ?thesis using p by simp
qed (use assms in simp_all)

lemma closed_tableD:
  assumes ct: "closed_table U rules" and k: "(pk, rk) \<in> set rules" and j: "(pj, rj) \<in> set rules"
  shows "headed pk" "barrier U pk rj" "no_start (lit_prefix pk) rj"
proof -
  have "lit_prefix pk \<in> set (remdups (map (\<lambda>(p, r). lit_prefix p) rules))"
    using k by force
  moreover have "rj \<in> set (map snd rules)" using j by force
  ultimately show "no_start (lit_prefix pk) rj"
    using ct unfolding closed_table_def list_all_iff by blast
  have "take 8 rj \<in> set (remdups (map (\<lambda>(p, r). take 8 r) rules))"
    using j by force
  moreover have "pk \<in> set (map fst rules)" using k by force
  ultimately have "rule_barrier U pk (take 8 rj)"
    using ct unfolding closed_table_def list_all_iff by blast
  then have hb: "headed pk \<and> barrier U pk (take 8 rj)" by (rule rule_barrier_sound)
  then show "headed pk" by simp
  from hb have "barrier U pk (take 8 rj @ drop 8 rj)" using barrier_append by blast
  then show "barrier U pk rj" by simp
qed

lemma free_rewritten_keep:
  assumes ct: "closed_table U rules" and k: "(pk, rk) \<in> set rules"
  shows "set rs \<subseteq> set rules \<Longrightarrow> free_of U pk t \<Longrightarrow> free_of U pk (rewritten U rs t)"
proof (induction rs arbitrary: t)
  case Nil
  then show ?case by simp
next
  case (Cons pr rs)
  obtain pj rj where pr: "pr = (pj, rj)" by (cases pr)
  then have j: "(pj, rj) \<in> set rules" using Cons.prems by simp
  have "free_of U pk (re_sub U pj rj None t)"
  proof (rule free_sub)
    show "headed pk" "barrier U pk rj" "no_start (lit_prefix pk) rj"
      using closed_tableD [OF ct k j] .
    show "headed pj" using closed_tableD(1) [OF ct j j] .
    fix a s assume "t = a @ s"
    then show "rmatch U pk None s = None" using Cons.prems(2) by (simp add: free_of_def)
  qed
  then show ?case using Cons.IH Cons.prems pr by simp
qed

lemma free_rewritten:
  assumes ct: "closed_table U rules"
  shows "set rs \<subseteq> set rules \<Longrightarrow> (pk, rk) \<in> set rs \<Longrightarrow> free_of U pk (rewritten U rs t)"
proof (induction rs arbitrary: t)
  case Nil
  then show ?case by simp
next
  case (Cons pr rs)
  obtain pj rj where pr: "pr = (pj, rj)" by (cases pr)
  then have j: "(pj, rj) \<in> set rules" and sub: "set rs \<subseteq> set rules" using Cons.prems by simp_all
  show ?case
  proof (cases "(pk, rk) = (pj, rj)")
    case True
    have "free_of U pk (re_sub U pj rj None t)"
    proof (rule free_sub)
      show "headed pk" "barrier U pk rj" "no_start (lit_prefix pk) rj" "headed pj"
        using closed_tableD [OF ct j j] True by simp_all
      fix a s assume "rmatch U pj None s = None"
      then show "rmatch U pk None s = None" using True by simp
    qed
    then have "free_of U pk (rewritten U rs (re_sub U pj rj None t))"
      using free_rewritten_keep [OF ct, of pk rk rs] j True sub by simp
    then show ?thesis using pr by simp
  next
    case False
    then have "(pk, rk) \<in> set rs" using Cons.prems pr by auto
    then show ?thesis using Cons.IH [OF sub] pr by simp
  qed
qed

lemma rewritten_free_id:
  "(\<And>p r. (p, r) \<in> set rs \<Longrightarrow> headed p \<and> free_of U p t) \<Longrightarrow>
     rewritten U rs t = t \<and> match_total U rs t = 0"
proof (induction rs)
  case Nil
  then show ?case by simp
next
  case (Cons pr rs)
  obtain p r where pr: "pr = (p, r)" by (cases pr)
  have "headed p \<and> free_of U p t" using Cons.prems [of p r] pr by simp
  then have "re_sub U p r None t = t \<and> findall_count U p None t = 0"
    using free_of_copy by blast
  moreover have "rewritten U rs t = t \<and> match_total U rs t = 0"
  proof (rule Cons.IH)
    fix p r assume "(p, r) \<in> set rs"
    then show "headed p \<and> free_of U p t" using Cons.prems [of p r] by simp
  qed
  ultimately show ?case using pr by simp
qed

lemma closed_table_idempotent:
  assumes ct: "closed_table U rules"
  shows "rewritten U rules (rewritten U rules t) = rewritten U rules t
       \<and> match_total U rules (rewritten U rules t) = 0"
proof (rule rewritten_free_id)
  fix p r assume pr: "(p, r) \<in> set rules"
  show "headed p \<and> free_of U p (rewritten U rules t)"
    using closed_tableD(1) [OF ct pr pr] free_rewritten [OF ct _ pr, of t] by simp
qed

text \<open>The table of the script is closed: evaluated on its 21 rules.\<close>

lemmas table_defs =
  color_replacements_def gradient_pat_def hex_pat_def rgba_pat_def lits_def str_def

lemma table_closed: "closed_table U color_replacements"
  by (simp add: table_defs closed_table_def ulits_def hex_token_def hex_clear_def
      is_word_def is_space_def word_opt_def next_cp_def)

section \<open>An occurrence behind a barrier, through the whole table\<close>

lemma re_sub_Some: "headed p \<Longrightarrow> re_sub U p r (Some c) t = re_sub U p r None t"
  by (rule re_sub_prev)

lemma findall_Some: "headed p \<Longrightarrow> findall_count U p (Some c) t = findall_count U p None t"
  by (rule findall_prev)

lemma step_keep:
  assumes k: "keeps U b W W' k (p, r)"
  shows "\<exists>A. re_sub U p r None (X @ b) = A @ b \<and>
     (\<forall>Y. re_sub U p r None (X @ b @ W @ Y) = A @ b @ W' @ re_sub U p r None Y \<and>
          findall_count U p None (X @ b @ W @ Y) =
            findall_count U p None (X @ b) + k + findall_count U p None Y)"
proof -
  from k have rb: "rule_barrier U p b" and e1: "re_sub U p r None b = b"
    and e2: "findall_count U p None b = 0"
    and e3: "\<And>Y. re_sub U p r None (b @ W @ Y) = b @ W' @ re_sub U p r None Y"
    and e4: "\<And>Y. findall_count U p None (b @ W @ Y) = k + findall_count U p None Y"
    by (simp_all add: keeps_def)
  from rule_barrier_sound [OF rb] have h: "headed p" and bar: "barrier U p b" by simp_all
  from ctx_split [OF h bar, of r X] obtain A k0 where
    s: "\<And>z. re_sub U p r None (X @ b @ z) = A @ re_sub U p r None (b @ z)"
    and c: "\<And>z. findall_count U p None (X @ b @ z) = k0 + findall_count U p None (b @ z)"
    by blast
  have s0: "re_sub U p r None (X @ b) = A @ b" using s [of "[]"] e1 by simp
  have c0: "findall_count U p None (X @ b) = k0" using c [of "[]"] e2 by simp
  have "re_sub U p r None (X @ b @ W @ Y) = A @ b @ W' @ re_sub U p r None Y \<and>
          findall_count U p None (X @ b @ W @ Y) =
            findall_count U p None (X @ b) + k + findall_count U p None Y" for Y
    using s [of "W @ Y"] c [of "W @ Y"] e3 [of Y] e4 [of Y] c0 by simp
  with s0 show ?thesis by blast
qed

lemma chain_keep:
  "list_all (keeps U b W W 0) rules \<Longrightarrow>
   \<exists>A. rewritten U rules (X @ b) = A @ b \<and>
       rewritten U rules (X @ b @ W @ Y) = A @ b @ W @ rewritten U rules Y \<and>
       match_total U rules (X @ b @ W @ Y) =
         match_total U rules (X @ b) + match_total U rules Y"
proof (induction rules arbitrary: X Y)
  case Nil
  then show ?case by simp
next
  case (Cons pr rules)
  obtain p r where pr: "pr = (p, r)" by (cases pr)
  from Cons.prems pr have k: "keeps U b W W 0 (p, r)" and rest: "list_all (keeps U b W W 0) rules"
    by simp_all
  from step_keep [OF k, of X] obtain A where
    a0: "re_sub U p r None (X @ b) = A @ b"
    and a1: "\<And>Y. re_sub U p r None (X @ b @ W @ Y) = A @ b @ W @ re_sub U p r None Y"
    and a2: "\<And>Y. findall_count U p None (X @ b @ W @ Y) =
            findall_count U p None (X @ b) + 0 + findall_count U p None Y"
    by blast
  from Cons.IH [OF rest, of A "re_sub U p r None Y"] obtain B where
    b0: "rewritten U rules (A @ b) = B @ b"
    and b1: "rewritten U rules (A @ b @ W @ re_sub U p r None Y) =
               B @ b @ W @ rewritten U rules (re_sub U p r None Y)"
    and b2: "match_total U rules (A @ b @ W @ re_sub U p r None Y) =
         match_total U rules (A @ b) + match_total U rules (re_sub U p r None Y)"
    by blast
  have "rewritten U (pr # rules) (X @ b) = B @ b \<and>
       rewritten U (pr # rules) (X @ b @ W @ Y) = B @ b @ W @ rewritten U (pr # rules) Y \<and>
       match_total U (pr # rules) (X @ b @ W @ Y) =
         match_total U (pr # rules) (X @ b) + match_total U (pr # rules) Y"
    unfolding pr rewritten.simps match_total.simps a0 a1 a2 b0 b1 b2 by simp
  then show ?case by blast
qed

lemmas keeps_eval = keeps_def table_defs ulits_def hex_token_def hex_clear_def
  is_word_def is_space_def word_opt_def next_cp_def at_boundary_def re_sub_Some findall_Some

text \<open>A text in which a rule of the table has a match is changed by the table.\<close>

lemma rewritten_changes:
  assumes m: "(p, r) \<in> set color_replacements" and s: "rmatch U p None s \<noteq> None"
  shows "rewritten U color_replacements (a @ s) \<noteq> a @ s"
proof
  assume e: "rewritten U color_replacements (a @ s) = a @ s"
  have "free_of U p (rewritten U color_replacements (a @ s))"
    using free_rewritten [OF table_closed subset_refl m] .
  then have "free_of U p (a @ s)" using e by simp
  then show False using s by (simp add: free_of_def)
qed

section \<open>The spinner rewrite applied twice\<close>

lemma spinner_pat_color:
  "spinner_pat = ulits (str ''.app-loading-spinner {'') @ Plus (NotCh 125) # color_pat"
  by (simp add: spinner_pat_def color_pat_def lits_ulits)

lemma rmatch_no_wordb_prev:
  "list_all no_wordb ps \<Longrightarrow> rmatch U ps prev t = rmatch U ps None t"
  by (induction U ps prev t rule: rmatch.induct) (auto split: option.splits)

lemma color_rejects:
  "list_all (item_rejects U 125) color_pat" "list_all (item_rejects U 46) color_pat"
  by (simp_all add: color_pat_def lits_def is_space_def)

lemma color_headed: "headed color_pat"
  by (simp add: color_pat_def lits_def)

lemma star_color_prev:
  "rmatch U (Star (NotCh 125) # color_pat) prev t = rmatch U (Star (NotCh 125) # color_pat) None t"
  by (rule rmatch_no_wordb_prev) (use rejects_no_wordb [OF color_rejects(1)] in simp)

lemma rejects_not_in:
  assumes r: "list_all (item_rejects U c) ps" and m: "rmatch U ps prev t = Some n"
  shows "c \<notin> set (take n t)"
proof
  assume "c \<in> set (take n t)"
  then obtain x z where s: "take n t = x @ c # z" by (meson split_list)
  have "t = take n t @ drop n t" by simp
  then have t: "t = x @ c # (z @ drop n t)" unfolding s by simp
  have "length (take n t) \<le> n" by simp
  then have "length x < n" unfolding s by simp
  moreover have "rmatch U ps prev x = Some n"
    using m rmatch_rejects [OF r, of prev x "z @ drop n t"] t by simp
  then have "n \<le> length x" by (rule rmatch_le)
  ultimately show False by simp
qed

lemma later_Nil: "later U [] = False"
  by (simp add: later_def color_pat_def lits_def)

lemma later_Cons:
  "later U (c # u) =
     (if c \<noteq> 125 then later U u \<or> rmatch U color_pat None (c # u) \<noteq> None else False)"
proof (cases "c = 125")
  case True
  have "rmatch U color_pat None (125 # u) = None"
    by (simp add: color_pat_def lits_def)
  then show ?thesis using True by (simp add: later_def)
next
  case False
  then show ?thesis
    by (simp add: later_def star_color_prev [of U "Some c"] split: option.splits)
qed

lemma later_cut: "125 \<in> set x \<Longrightarrow> later U (x @ z) = later U (x @ z')"
proof (induction x)
  case Nil then show ?case by simp
next
  case (Cons c x)
  show ?case
  proof (cases "c = 125")
    case True then show ?thesis by (simp add: later_Cons)
  next
    case False
    with Cons.prems have in_x: "125 \<in> set x" by simp
    then obtain x1 x2 where x: "x = x1 @ 125 # x2" by (meson split_list)
    have "rmatch U color_pat None (c # x @ z) = rmatch U color_pat None (c # x1)" for z
      using rmatch_rejects [OF color_rejects(1), of U None "c # x1" "x2 @ z"] x by simp
    then have "rmatch U color_pat None (c # x @ z) = rmatch U color_pat None (c # x @ z')"
      by simp
    then show ?thesis using Cons.IH [OF in_x] False by (simp add: later_Cons)
  qed
qed

lemma later_prepend: "125 \<notin> set x \<Longrightarrow> later U w \<Longrightarrow> later U (x @ w)"
  by (induction x) (simp_all add: later_Cons)

lemma star_color_end:
  "rmatch U (Star (NotCh 125) # color_pat) None u = Some m \<Longrightarrow> \<not> later U (drop m u)"
proof (induction u arbitrary: m)
  case Nil
  then show ?case by (simp add: later_Nil)
next
  case (Cons c u)
  show ?case
  proof (cases "c = 125")
    case True
    have "rmatch U color_pat None (125 # u) = None"
      by (simp add: color_pat_def lits_def)
    then show ?thesis using Cons.prems True by simp
  next
    case False
    show ?thesis
    proof (cases "rmatch U (Star (NotCh 125) # color_pat) None u")
      case (Some n')
      then have "m = Suc n'" using Cons.prems False
        by (simp add: star_color_prev [of U "Some c"])
      then show ?thesis using Cons.IH [OF Some] by simp
    next
      case None
      then have nl: "\<not> later U u" by (simp add: later_def)
      have cm: "rmatch U color_pat None (c # u) = Some m"
        using Cons.prems False None by (simp add: star_color_prev [of U "Some c"])
      have pos: "0 < m" using rmatch_headed_pos [OF color_headed cm] .
      then obtain k where m: "m = Suc k" by (cases m) simp_all
      have "125 \<notin> set (take m (c # u))" using rejects_not_in [OF color_rejects(1) cm] .
      then have "125 \<notin> set (take k u)" using m by simp
      then have "\<not> later U (drop k u)"
        using nl later_prepend [of "take k u" U "drop k u"] by auto
      then show ?thesis using m by simp
    qed
  qed
qed

lemma spinner_headed: "headed spinner_pat"
  by (simp add: spinner_pat_def lits_def)

lemma spinner_matchD:
  assumes "rmatch U spinner_pat None t = Some n"
  shows "\<exists>c u m. t = str ''.app-loading-spinner {'' @ c # u \<and> c \<noteq> 125 \<and>
           rmatch U (Star (NotCh 125) # color_pat) None u = Some m \<and> n = 23 + m"
proof -
  let ?S = "str ''.app-loading-spinner {''"
  have "prefix ?S t"
    using assms rmatch_ulits_prefix [of U ?S "Plus (NotCh 125) # color_pat" None t n]
    by (simp add: spinner_pat_color)
  then obtain v where t: "t = ?S @ v" by (auto simp add: prefix_def)
  have l: "length ?S = 22" and ne: "?S \<noteq> []" by (simp_all add: str_def)
  have "rmatch U spinner_pat None t =
      map_option ((+) 22) (rmatch U (Plus (NotCh 125) # color_pat) (Some (last ?S)) v)"
    unfolding t spinner_pat_color rmatch_ulits_app using l ne by simp
  then have "map_option ((+) 22)
      (rmatch U (Plus (NotCh 125) # color_pat) (Some (last ?S)) v) = Some n"
    using assms by simp
  then obtain k where k: "rmatch U (Plus (NotCh 125) # color_pat) (Some (last ?S)) v = Some k"
    and n: "n = 22 + k"
    by (cases "rmatch U (Plus (NotCh 125) # color_pat) (Some (last ?S)) v") auto
  from k obtain c u where v: "v = c # u" by (cases v) simp_all
  from k v have c: "c \<noteq> 125" by (auto split: if_splits)
  from k v c obtain m where
    m: "rmatch U (Star (NotCh 125) # color_pat) (Some c) u = Some m" and km: "k = Suc m"
    by auto
  have "rmatch U (Star (NotCh 125) # color_pat) None u = Some m"
    using m star_color_prev [of U "Some c" u] by simp
  then show ?thesis using t v c n km by auto
qed

lemma spinner_matchI:
  assumes c: "c \<noteq> 125" and l: "later U u"
  shows "rmatch U spinner_pat None (str ''.app-loading-spinner {'' @ c # u) \<noteq> None"
proof -
  let ?S = "str ''.app-loading-spinner {''"
  have ne: "?S \<noteq> []" by (simp add: str_def)
  from l obtain m where "rmatch U (Star (NotCh 125) # color_pat) None u = Some m"
    by (auto simp add: later_def)
  then have m: "rmatch U (Star (NotCh 125) # color_pat) (Some c) u = Some m"
    using star_color_prev [of U "Some c" u] by simp
  have "rmatch U (Plus (NotCh 125) # color_pat) (Some (last ?S)) (c # u) = Some (Suc m)"
    using c m by simp
  then show ?thesis
    unfolding spinner_pat_color rmatch_ulits_app using ne by simp
qed

lemma spinner_match_iff:
  "rmatch U spinner_pat None t \<noteq> None \<longleftrightarrow>
     (\<exists>c u. t = str ''.app-loading-spinner {'' @ c # u \<and> c \<noteq> 125 \<and> later U u)"
proof
  assume "rmatch U spinner_pat None t \<noteq> None"
  then obtain n where "rmatch U spinner_pat None t = Some n" by auto
  from spinner_matchD [OF this] show
    "\<exists>c u. t = str ''.app-loading-spinner {'' @ c # u \<and> c \<noteq> 125 \<and> later U u"
    by (auto simp add: later_def)
next
  assume "\<exists>c u. t = str ''.app-loading-spinner {'' @ c # u \<and> c \<noteq> 125 \<and> later U u"
  then show "rmatch U spinner_pat None t \<noteq> None" using spinner_matchI by blast
qed

text \<open>After a match, no colour property is left before the next closing brace.\<close>

lemma spinner_match_end:
  assumes "rmatch U spinner_pat None t = Some n"
  shows "\<not> later U (drop n t)"
proof -
  from spinner_matchD [OF assms] obtain c u m where
    t: "t = str ''.app-loading-spinner {'' @ c # u"
    and m: "rmatch U (Star (NotCh 125) # color_pat) None u = Some m" and n: "n = 23 + m"
    by blast
  have "length (str ''.app-loading-spinner {'') = 22" by (simp add: str_def)
  then have "drop n t = drop m u" unfolding t n by simp
  then show ?thesis using star_color_end [OF m] by simp
qed

lemma selector_no_brace: "125 \<notin> set (str ''.app-loading-spinner {'')"
  by (simp add: str_def)

lemma later_sub:
  "later U (x @ re_sub U spinner_pat spinner_rep None t) \<Longrightarrow> later U (x @ t)"
proof (induction t arbitrary: x rule: length_induct)
  case (1 t)
  note h = spinner_headed
  show ?case
  proof (cases t)
    case Nil
    then show ?thesis using 1(2) by (simp add: re_sub_Nil [OF h] del: re_sub.simps)
  next
    case (Cons c cs)
    show ?thesis
    proof (cases "rmatch U spinner_pat None t")
      case None
      then have e: "re_sub U spinner_pat spinner_rep None t =
          c # re_sub U spinner_pat spinner_rep None cs"
        unfolding Cons by (simp add: re_sub_Cons [OF h] del: re_sub.simps)
      have "later U ((x @ [c]) @ re_sub U spinner_pat spinner_rep None cs)"
        using 1(2) e by simp
      moreover have "length cs < length t" using Cons by simp
      ultimately have "later U ((x @ [c]) @ cs)" using 1(1) by blast
      then show ?thesis using Cons by simp
    next
      case (Some n)
      from spinner_matchD [OF Some] obtain c' u m where
        t: "t = str ''.app-loading-spinner {'' @ c' # u" and c': "c' \<noteq> 125"
        and m: "rmatch U (Star (NotCh 125) # color_pat) None u = Some m"
        by blast
      have lu: "later U u" using m by (simp add: later_def)
      show ?thesis
      proof (cases "125 \<in> set x")
        case True
        then show ?thesis using 1(2) later_cut [OF True] by blast
      next
        case False
        then have "125 \<notin> set (x @ str ''.app-loading-spinner {'' @ [c'])"
          using c' selector_no_brace by simp
        from later_prepend [OF this lu] show ?thesis unfolding t by simp
      qed
    qed
  qed
qed

lemma later_rep_tail:
  "later U (str ''  color: var(--primary);'' @ y) = later U y"
  by (simp add: later_Cons str_def color_pat_def lits_def is_space_def)

lemma later_rep_tl: "later U (tl spinner_rep @ y) = later U y"
  by (simp add: spinner_rep_def later_Cons str_def color_pat_def lits_def is_space_def)

lemma align:
  assumes x: "x \<noteq> []" and e: "x @ a # z = (a # S') @ c' # u'" and a: "a \<notin> set S'"
  shows "(\<exists>x''. x = a # S' @ c' # x'' \<and> u' = x'' @ a # z) \<or> (x = a # S' \<and> c' = a \<and> u' = z)"
proof -
  from x e obtain x' where xx: "x = a # x'" and e': "x' @ a # z = S' @ c' # u'"
    by (cases x) auto
  from e' consider us where "x' = S' @ us" "us @ a # z = c' # u'"
    | us where "x' @ us = S'" "a # z = us @ c' # u'"
    by (auto simp add: append_eq_append_conv2)
  then show ?thesis
  proof cases
    case 1
    then show ?thesis using xx by (cases us) auto
  next
    case 2
    then show ?thesis using xx a by (cases us) auto
  qed
qed

lemma selector_split:
  "str ''.app-loading-spinner {'' = 46 # tl (str ''.app-loading-spinner {'')"
  "46 \<notin> set (tl (str ''.app-loading-spinner {''))"
  by (simp_all add: str_def)

lemma rep_split:
  "spinner_rep = 46 # tl spinner_rep" "46 \<notin> set (tl spinner_rep)"
  "spinner_rep = str ''.app-loading-spinner {'' @ 10 # str ''  color: var(--primary);''"
  by (simp_all add: spinner_rep_def str_def)

lemma spinner_first: "c \<noteq> 46 \<Longrightarrow> rmatch U spinner_pat prev (c # t) = None"
  by (simp add: spinner_pat_def lits_def)

lemma sub_keeps_none:
  "x \<noteq> [] \<Longrightarrow> rmatch U spinner_pat None (x @ t) = None \<Longrightarrow>
     rmatch U spinner_pat None (x @ re_sub U spinner_pat spinner_rep None t) = None"
proof (induction t arbitrary: x rule: length_induct)
  case (1 t)
  note h = spinner_headed
  let ?f = "re_sub U spinner_pat spinner_rep None"
  show ?case
  proof (cases t)
    case Nil
    then show ?thesis using 1(3) by (simp add: re_sub_Nil [OF h] del: re_sub.simps)
  next
    case (Cons c cs)
    show ?thesis
    proof (cases "rmatch U spinner_pat None t")
      case None
      then have e: "?f t = c # ?f cs"
        unfolding Cons by (simp add: re_sub_Cons [OF h] del: re_sub.simps)
      have "rmatch U spinner_pat None ((x @ [c]) @ cs) = None" using 1(3) Cons by simp
      moreover have "length cs < length t" using Cons by simp
      moreover have "x @ [c] \<noteq> []" by simp
      ultimately have "rmatch U spinner_pat None ((x @ [c]) @ ?f cs) = None"
        using 1(1) by blast
      then show ?thesis using e by simp
    next
      case (Some n)
      define y where "y = ?f (drop n t)"
      have e: "?f t = spinner_rep @ y"
        using Some unfolding Cons y_def by (simp add: re_sub_Cons [OF h] del: re_sub.simps)
      have nl: "\<not> later U (drop n t)" using spinner_match_end [OF Some] .
      show ?thesis
      proof (rule ccontr)
        assume "rmatch U spinner_pat None (x @ ?f t) \<noteq> None"
        then obtain c' u' where
          a: "x @ ?f t = str ''.app-loading-spinner {'' @ c' # u'"
          and c': "c' \<noteq> 125" and l: "later U u'"
          unfolding spinner_match_iff by blast
        have "x @ 46 # (tl spinner_rep @ y) =
            (46 # tl (str ''.app-loading-spinner {'')) @ c' # u'"
          using a e rep_split(1) selector_split(1) by (metis append_Cons)
        from align [OF 1(2) this selector_split(2)]
        consider x'' where "x = 46 # tl (str ''.app-loading-spinner {'') @ c' # x''"
            "u' = x'' @ 46 # (tl spinner_rep @ y)"
          | "u' = tl spinner_rep @ y"
          by blast
        then show False
        proof cases
          case 1
          have x: "x = str ''.app-loading-spinner {'' @ c' # x''"
            using 1(1) selector_split(1) by (metis append_Cons)
          have "u' = x'' @ ?f t" using 1(2) e rep_split(1) by (metis append_Cons)
          then have "later U (x'' @ t)" using l later_sub by blast
          from spinner_matchI [OF c' this] show False using \<open>rmatch U spinner_pat None (x @ t) = None\<close> x
            by simp
        next
          case 2
          then have "later U y" using l later_rep_tl by simp
          then have "later U ([] @ ?f (drop n t))" by (simp add: y_def)
          then have "later U ([] @ drop n t)" by (rule later_sub)
          then show False using nl by simp
        qed
      qed
    qed
  qed
qed

lemma rep_inert:
  assumes nl: "\<not> later U y" and s: "spinner_rep = a @ s" "s \<noteq> []"
  shows "rmatch U spinner_pat None (s @ y) = None"
proof (cases a)
  case Nil
  show ?thesis
  proof (rule ccontr)
    assume "rmatch U spinner_pat None (s @ y) \<noteq> None"
    then obtain c' u' where
      a: "s @ y = str ''.app-loading-spinner {'' @ c' # u'" and l: "later U u'"
      unfolding spinner_match_iff by blast
    have "s = str ''.app-loading-spinner {'' @ 10 # str ''  color: var(--primary);''"
      using s Nil rep_split(3) by simp
    then have "u' = str ''  color: var(--primary);'' @ y" using a by simp
    then show False using l nl later_rep_tail by simp
  qed
next
  case (Cons h a')
  then have "tl spinner_rep = a' @ s" using s by (metis list.sel(3) append_Cons)
  then have "hd s \<in> set (tl spinner_rep)" using s(2) by (cases s) simp_all
  then have "hd s \<noteq> 46" using rep_split(2) by auto
  then show ?thesis using s(2) spinner_first by (cases s) simp_all
qed

lemma rep_copy:
  assumes nl: "\<not> later U y"
  shows "re_sub U spinner_pat spinner_rep None (spinner_rep @ y) =
     spinner_rep @ re_sub U spinner_pat spinner_rep None y"
proof -
  note h = spinner_headed
  have n0: "\<not> later U []" by (simp add: later_Nil)
  have i: "\<And>a s. spinner_rep = a @ s \<Longrightarrow> s \<noteq> [] \<Longrightarrow>
      rmatch U spinner_pat None (s @ y) = rmatch U spinner_pat None s"
    using rep_inert [OF nl] rep_inert [OF n0] by (metis append_Nil2)
  have c: "\<And>a s. spinner_rep = a @ s \<Longrightarrow> s \<noteq> [] \<Longrightarrow> rmatch U spinner_pat None s = None"
    using rep_inert [OF n0] by (metis append_Nil2)
  from re_sub_append [OF h i, where r = spinner_rep] no_match_copy [OF h c, where r = spinner_rep]
  show ?thesis by simp
qed

lemma spinner_idempotent:
  "re_sub U spinner_pat spinner_rep None (re_sub U spinner_pat spinner_rep None t) =
     re_sub U spinner_pat spinner_rep None t"
proof (induction t rule: length_induct)
  case (1 t)
  note h = spinner_headed
  let ?f = "re_sub U spinner_pat spinner_rep None"
  show ?case
  proof (cases t)
    case Nil
    then show ?thesis by (simp add: re_sub_Nil [OF h] del: re_sub.simps)
  next
    case (Cons c cs)
    show ?thesis
    proof (cases "rmatch U spinner_pat None t")
      case None
      then have e: "?f t = c # ?f cs"
        unfolding Cons by (simp add: re_sub_Cons [OF h] del: re_sub.simps)
      have "rmatch U spinner_pat None ([c] @ ?f cs) = None"
        using sub_keeps_none [of "[c]" U cs] None Cons by simp
      then have "?f (c # ?f cs) = c # ?f (?f cs)"
        by (simp add: re_sub_Cons [OF h] del: re_sub.simps)
      moreover have "?f (?f cs) = ?f cs" using 1 Cons by simp
      ultimately show ?thesis using e by simp
    next
      case (Some n)
      define y where "y = ?f (drop n t)"
      have e: "?f t = spinner_rep @ y"
        using Some unfolding Cons y_def by (simp add: re_sub_Cons [OF h] del: re_sub.simps)
      have pos: "0 < n" using rmatch_headed_pos [OF h Some] .
      have "length (drop n t) < length t" using pos Cons by simp
      then have iy: "?f y = y" using 1 y_def by blast
      have "\<not> later U (drop n t)" using spinner_match_end [OF Some] .
      then have "\<not> later U y"
        using later_sub [of U "[]" "drop n t"] by (auto simp add: y_def)
      from rep_copy [OF this] show ?thesis using e iy by simp
    qed
  qed
qed

section \<open>Running the script on small inputs\<close>

lemmas eval_defs =
  str_def lits_def is_word_def is_space_def at_boundary_def word_opt_def next_cp_def

lemmas main_defs =
  main_def and_then_def return_def phase_components_def phase_dark_mode_def
  phase_app_css_def read_file_def write_file_def print_def component_dir_def
  dark_mode_file_def app_css_file_def

text \<open>
  C1.  The claim: in \<^verbatim>\<open>App.css\<close> only the value of the colour property of the spinner
  block is replaced, and the properties between the opening brace and the colour
  property stay.  The script on a block with \<^verbatim>\<open>width: 40px;\<close> before the colour property:
  the match runs from the selector to the semicolon of the colour property and is
  replaced as a whole, so \<^verbatim>\<open>width: 40px;\<close> is gone from the file written.
\<close>

theorem spinner_drops_earlier_properties:
  "contents (snd (main U (only_app_css
      (Inr (str ''.app-loading-spinner { width: 40px; color: #9333ea; top: 0 }'')))))
     app_css_file
   = Inr (str ''.app-loading-spinner {'' @ [10] @ str ''  color: var(--primary); top: 0 }'')"
  by (simp add: main_defs only_app_css_def spinner_pat_def spinner_rep_def eval_defs)

text \<open>
  C2.  The claim: an error reading or writing any one file is caught for that file and
  never ends the run.  The script on a checkout whose \<^verbatim>\<open>App.css\<close> is not valid UTF-8:
  the exception leaves \<^verbatim>\<open>main\<close>, after the opening banner alone has been printed.
\<close>

theorem app_css_read_error_ends_run:
  "main U (only_app_css (Inl UnicodeDecodeError)) =
     (Inl UnicodeDecodeError,
      (only_app_css (Inl UnicodeDecodeError))\<lparr>console := [BannerStart]\<rparr>)"
  by (simp add: main_defs only_app_css_def)

text \<open>
  C3.  The claim: no file is written unless its final text differs from the original,
  the special-cased file included.  The script on an \<^verbatim>\<open>App.css\<close> without a spinner
  block: the file is written with the text it had and reported as fixed.
\<close>

theorem app_css_written_unchanged:
  "main U (only_app_css (Inr (str ''body { margin: 0 }''))) =
     (Inr (), (only_app_css (Inr (str ''body { margin: 0 }'')))
        \<lparr>writes := [app_css_file],
         console := [BannerStart, SpinnerFixed app_css_file, BannerEnd]\<rparr>)"
  by (simp add: main_defs only_app_css_def spinner_pat_def spinner_rep_def eval_defs
        fun_eq_iff)

section \<open>A missing component directory\<close>

text \<open>
  C8.  When \<^verbatim>\<open>src/components\<close> does not exist, the component phase returns normally
  and leaves the files and the console as they were (no file processed, no line
  printed, no error), and the run goes on with the dark-mode phase and the
  \<^verbatim>\<open>App.css\<close> phase from the state after the opening banner.
\<close>

theorem missing_component_dir_skipped:
  "\<not> path_exists w component_dir \<Longrightarrow>
     phase_components U w = (Inr (), w) \<and>
     main U w =
       and_then (print BannerStart)
         (and_then (phase_dark_mode U)
            (and_then (phase_app_css U) (print BannerEnd))) w"
proof -
  assume h: "\<not> path_exists w component_dir"
  have pc: "phase_components U w' = (Inr (), w')" if "\<not> path_exists w' component_dir" for w'
    using that by (simp add: phase_components_def)
  obtain r w' where p: "print BannerStart w = (r, w')" by (cases "print BannerStart w")
  then have "path_exists w' = path_exists w"
    by (auto simp add: print_def split: option.splits)
  then have "phase_components U w' = (Inr (), w')" using h pc by simp
  then have "main U w =
       and_then (print BannerStart)
         (and_then (phase_dark_mode U)
            (and_then (phase_app_css U) (print BannerEnd))) w"
    unfolding main_def and_then_def [of "print BannerStart"] p
    by (cases r) (simp_all add: and_then_def [of "phase_components U"])
  then show ?thesis using pc [OF h] by simp
qed

theorem missing_component_dir_skipped_witness:
  "\<not> path_exists (only_app_css (Inr [])) component_dir \<and>
   phase_components ascii_ucd (only_app_css (Inr [])) = (Inr (), only_app_css (Inr [])) \<and>
   main ascii_ucd (only_app_css (Inr [])) =
     and_then (print BannerStart)
       (and_then (phase_dark_mode ascii_ucd)
          (and_then (phase_app_css ascii_ucd) (print BannerEnd)))
       (only_app_css (Inr []))"
proof -
  have h: "\<not> path_exists (only_app_css (Inr [])) component_dir"
    by (simp add: only_app_css_def component_dir_def app_css_file_def)
  show ?thesis
    using h missing_component_dir_skipped [OF h, of ascii_ucd] by simp
qed

section \<open>What \<^verbatim>\<open>fix_colors_in_file\<close> returns\<close>

text \<open>
  C10.  The claim: \<^verbatim>\<open>fix_colors_in_file\<close> never lets an exception reach its caller, and
  returns \<^verbatim>\<open>True\<close> exactly when the file was changed and rewritten.  The script on a
  stylesheet with one colour of the table, on a console whose encoding has no emoji:
  the file is rewritten, the \<^verbatim>\<open>print\<close> of the success line raises inside the \<^verbatim>\<open>try\<close>,
  the \<^verbatim>\<open>print\<close> of the handler raises again, and this exception leaves the function,
  which returns nothing although the file now holds the rewritten text.
\<close>

theorem fix_colors_in_file_raises_after_rewrite:
  "fix_colors_in_file U ''src/components/Button.css''
     (one_file ''src/components/Button.css'' (str ''a { color: #9333ea; }'') no_emoji) =
   (Inl UnicodeEncodeError,
    (one_file ''src/components/Button.css'' (str ''a { color: #9333ea; }'') no_emoji)
      \<lparr>contents :=
         (contents (one_file ''src/components/Button.css'' (str ''a { color: #9333ea; }'')
            no_emoji))
         (''src/components/Button.css'' := Inr (str ''a { color: var(--primary); }'')),
       writes := [''src/components/Button.css'']\<rparr>)"
proof -
  have a: "apply_rules U color_replacements (str ''a { color: #9333ea; }'') 0 =
     (str ''a { color: var(--primary); }'', 1)"
    by (simp add: color_replacements_def hex_pat_def gradient_pat_def rgba_pat_def eval_defs)
  have n: "str ''a { color: var(--primary); }'' \<noteq> str ''a { color: #9333ea; }''"
    by (simp add: str_def)
  show ?thesis
    by (simp add: fix_colors_in_file_def fix_colors_try_def read_file_def write_file_def
          print_def and_then_def return_def one_file_def no_emoji_def a n)
qed

section \<open>The reported count\<close>

text \<open>
  What \<^verbatim>\<open>fix_colors_in_file\<close> does with a file it could read, in the words of the
  specification: the text written is \<open>rewritten\<close>, the count printed is \<open>match_total\<close>.
\<close>

lemma table_apply:
  "apply_rules U color_replacements t 0 =
     (rewritten U color_replacements t, match_total U color_replacements t)"
  using apply_rules_spec [OF table_distinct_head, of U t 0] by simp

lemma fix_colors_try_read:
  "contents w p = Inr t \<Longrightarrow>
   fix_colors_try U p w =
     (if rewritten U color_replacements t \<noteq> t
      then and_then (write_file p (rewritten U color_replacements t))
             (and_then (print (Changed p (match_total U color_replacements t))) (return True)) w
      else and_then (print (NoChange p)) (return False) w)"
  by (simp add: fix_colors_try_def read_file_def table_apply)

lemma fix_colors_changed:
  assumes "contents w p = Inr t" and "rewritten U color_replacements t \<noteq> t"
    and "write_error w p = None"
    and "print_error w (Changed p (match_total U color_replacements t)) = None"
  shows "fix_colors_in_file U p w =
     (Inr True,
      w\<lparr>contents := (contents w)(p := Inr (rewritten U color_replacements t)),
        writes := p # writes w,
        console := console w @ [Changed p (match_total U color_replacements t)]\<rparr>)"
  using assms
  by (simp add: fix_colors_in_file_def fix_colors_try_read write_file_def print_def
        and_then_def return_def)

lemma fix_colors_unchanged:
  assumes "contents w p = Inr t" and "rewritten U color_replacements t = t"
    and "print_error w (NoChange p) = None"
  shows "fix_colors_in_file U p w = (Inr False, w\<lparr>console := console w @ [NoChange p]\<rparr>)"
  using assms
  by (simp add: fix_colors_in_file_def fix_colors_try_read print_def and_then_def return_def)

text \<open>
  C7.  For a file that is read, written and reported without an error: when the rules
  change its text, \<^verbatim>\<open>fix_colors_in_file\<close> writes the result of applying the rules in
  table order and prints, as the count of the file, the sum over the rules of the
  number of matches of each rule in the text it is applied to, which is the output of
  the rules before it; when they do not, it prints that nothing changed.  The loop
  computes exactly this text and this sum.  A rule without a match in its input adds 0
  and leaves that text as it is.
\<close>

theorem change_count_is_sum_of_matches:
  assumes "contents w p = Inr t" and "write_error w p = None"
    and "\<forall>l. print_error w l = None"
  shows "fix_colors_in_file U p w =
     (if rewritten U color_replacements t \<noteq> t
      then (Inr True,
            w\<lparr>contents := (contents w)(p := Inr (rewritten U color_replacements t)),
              writes := p # writes w,
              console := console w @ [Changed p (match_total U color_replacements t)]\<rparr>)
      else (Inr False, w\<lparr>console := console w @ [NoChange p]\<rparr>))
   \<and> apply_rules U color_replacements t 0 =
     (rewritten U color_replacements t, match_total U color_replacements t)
   \<and> (findall_count U q prev s = 0 \<longrightarrow> re_sub U q r prev s = s)"
  using assms fix_colors_changed [of w p t U] fix_colors_unchanged [of w p t U]
    table_apply [of U t] no_match_no_change [of U q prev s r]
  by simp

theorem change_count_is_sum_of_matches_witness:
  "contents (one_file ''src/components/Button.css'' (str ''color: #9333ea;'') (\<lambda>l. None))
     ''src/components/Button.css'' = Inr (str ''color: #9333ea;'')
   \<and> write_error (one_file ''src/components/Button.css'' (str ''color: #9333ea;'') (\<lambda>l. None))
     ''src/components/Button.css'' = None
   \<and> (\<forall>l. print_error
          (one_file ''src/components/Button.css'' (str ''color: #9333ea;'') (\<lambda>l. None)) l = None)
   \<and> fix_colors_in_file ascii_ucd ''src/components/Button.css''
       (one_file ''src/components/Button.css'' (str ''color: #9333ea;'') (\<lambda>l. None)) =
     (Inr True,
      (one_file ''src/components/Button.css'' (str ''color: #9333ea;'') (\<lambda>l. None))
        \<lparr>contents :=
           (contents (one_file ''src/components/Button.css'' (str ''color: #9333ea;'')
              (\<lambda>l. None)))
           (''src/components/Button.css'' := Inr (str ''color: var(--primary);'')),
         writes := [''src/components/Button.css''],
         console := [Changed ''src/components/Button.css'' 1]\<rparr>)
   \<and> findall_count ascii_ucd (hex_pat ''#a855f7'') None (str ''color: #9333ea;'') = 0
   \<and> re_sub ascii_ucd (hex_pat ''#a855f7'') (str ''var(--primary-light)'') None
         (str ''color: #9333ea;'') = str ''color: #9333ea;''"
proof -
  let ?p = "''src/components/Button.css''"
  let ?w = "one_file ?p (str ''color: #9333ea;'') (\<lambda>l. None)"
  have c: "contents ?w ?p = Inr (str ''color: #9333ea;'')"
    and e: "write_error ?w ?p = None" and pe: "\<forall>l. print_error ?w l = None"
    and wr: "writes ?w = []" and co: "console ?w = []"
    by (simp_all add: one_file_def)
  have h: "findall_count ascii_ucd (hex_pat ''#a855f7'') None (str ''color: #9333ea;'') = 0"
    by (simp add: hex_pat_def eval_defs)
  have a: "apply_rules ascii_ucd color_replacements (str ''color: #9333ea;'') 0 =
     (str ''color: var(--primary);'', 1)"
    by (simp add: color_replacements_def hex_pat_def gradient_pat_def rgba_pat_def eval_defs)
  have n: "str ''color: var(--primary);'' \<noteq> str ''color: #9333ea;''"
    by (simp add: str_def)
  from change_count_is_sum_of_matches
      [OF c e pe, of ascii_ucd "hex_pat ''#a855f7''" None
          "str ''color: #9333ea;''" "str ''var(--primary-light)''"]
  show ?thesis
    unfolding a using c e pe h n wr co by simp
qed

section \<open>The word boundary after a hex colour\<close>

lemma lits_inj: "lits a = lits b \<Longrightarrow> a = b"
proof -
  have "inj (\<lambda>c::char. One (Lit (of_char c)))" by (simp add: inj_def)
  then show "lits a = lits b \<Longrightarrow> a = b" by (simp add: lits_def inj_map_eq_map)
qed

lemma hex_pat_eq: "hex_pat a = hex_pat b \<longleftrightarrow> a = b"
  using lits_inj by (auto simp add: hex_pat_def)

lemma hex_pat_last: "last (hex_pat a) = WordB"
  by (simp add: hex_pat_def)

lemma hex_pat_not_gradient: "hex_pat a \<noteq> gradient_pat"
proof
  assume "hex_pat a = gradient_pat"
  then have "last (hex_pat a) = last gradient_pat" by simp
  then show False by (simp add: hex_pat_last) (simp add: gradient_pat_def lits_def)
qed

lemma hex_pat_not_rgba: "hex_pat a \<noteq> rgba_pat r g b x"
proof
  assume "hex_pat a = rgba_pat r g b x"
  then have "last (hex_pat a) = last (rgba_pat r g b x)" by simp
  then show False by (simp add: hex_pat_last) (simp add: rgba_pat_def lits_def)
qed

lemma table_hex_tokens:
  "(hex_pat tok, rep) \<in> set color_replacements \<Longrightarrow> hex_token U (str tok)"
  by (auto simp add: color_replacements_def hex_pat_eq hex_pat_not_gradient hex_pat_not_rgba
        hex_token_def str_def is_word_def)

text \<open>
  C4, as the code has it.  For each hex-colour rule of the table, an occurrence of the
  token is replaced exactly when it is followed by the end of the text or by a
  character that is not a word character; followed by a word character (a letter, a
  digit, an underscore, so every hex digit) it is left in place.  The text before and
  the text after the occurrence are rewritten on their own, and the occurrence adds 1
  to the matches of the rule when it is replaced and 0 when it is not.
\<close>

theorem hex_rule_word_boundary:
  assumes "(hex_pat tok, rep) \<in> set color_replacements"
  shows "re_sub U (hex_pat tok) rep None (pre @ str tok @ post) =
           re_sub U (hex_pat tok) rep None pre @
           (if word_opt U (next_cp post) then str tok else rep) @
           re_sub U (hex_pat tok) rep None post
       \<and> findall_count U (hex_pat tok) None (pre @ str tok @ post) =
           findall_count U (hex_pat tok) None pre +
           (if word_opt U (next_cp post) then 0 else 1) +
           findall_count U (hex_pat tok) None post
       \<and> (c \<in> set (str ''0123456789abcdefABCDEF'') \<longrightarrow> is_word U c)"
  using hex_sub_token [OF table_hex_tokens [OF assms, of U], where r = rep and pre = pre and post = post]
  by (auto simp add: hex_pat_def lits_ulits str_def is_word_def)

theorem hex_rule_word_boundary_witness:
  "(hex_pat ''#9333ea'', str ''var(--primary)'') \<in> set color_replacements
   \<and> re_sub ascii_ucd (hex_pat ''#9333ea'') (str ''var(--primary)'') None
       (str ''a { color: '' @ str ''#9333ea'' @ str ''; } b { color: '' @ str ''#9333ea'' @ str ''ff; }'')
     = str ''a { color: var(--primary); } b { color: #9333eaff; }''
   \<and> is_word ascii_ucd (of_char CHR ''f'')"
proof -
  have m: "(hex_pat ''#9333ea'', str ''var(--primary)'') \<in> set color_replacements"
    by (simp add: color_replacements_def)
  have e: "re_sub ascii_ucd (hex_pat ''#9333ea'') (str ''var(--primary)'') None
       (str ''a { color: '' @ str ''#9333ea'' @ str ''; } b { color: '' @ str ''#9333ea'' @ str ''ff; }'')
     = str ''a { color: var(--primary); } b { color: #9333eaff; }''"
    using hex_rule_word_boundary [OF m, where U = ascii_ucd and pre = "str ''a { color: ''"
        and post = "str ''; } b { color: '' @ str ''#9333ea'' @ str ''ff; }''" and c = "of_char CHR ''f''"]
      hex_rule_word_boundary [OF m, where U = ascii_ucd and pre = "str ''; } b { color: ''" and post = "str ''ff; }''"
        and c = "of_char CHR ''f''"]
    by (simp add: hex_pat_def eval_defs)
  show ?thesis using m e by (simp add: is_word_def)
qed

text \<open>
  C4, as the claim states it, asks for a match whenever the token is followed by a
  character that is not a hex digit.  An underscore is not a hex digit, yet it is a word
  character: the rule does not match and the text stays.
\<close>

theorem hex_rule_non_hex_letter_counterexample:
  "re_sub ascii_ucd (hex_pat ''#9333ea'') (str ''var(--primary)'') None (str ''fill: #9333ea_old;'')
     = str ''fill: #9333ea_old;''
   \<and> findall_count ascii_ucd (hex_pat ''#9333ea'') None (str ''fill: #9333ea_old;'') = 0
   \<and> fst (apply_rules ascii_ucd color_replacements (str ''fill: #9333ea_old;'') 0)
     = str ''fill: #9333ea_old;''"
  by (simp add: color_replacements_def hex_pat_def gradient_pat_def rgba_pat_def eval_defs)

section \<open>A colour property in the general table\<close>

lemma c9_rule1:
  "keeps U (str ''color: '') (str ''#9333ea;'') (str ''#9333ea;'') 0 (color_replacements ! 0)"
  by (simp add: keeps_eval)

lemma c9_rule2:
  "keeps U (str ''color: '') (str ''#9333ea;'') (str ''var(--primary);'') 1 (color_replacements ! 1)"
  by (simp add: keeps_eval)

lemma c9_rest:
  "list_all (keeps U (str ''color: '') (str ''var(--primary);'') (str ''var(--primary);'') 0)
     (drop 2 color_replacements)"
  by (simp add: keeps_eval)

lemma table_split:
  "color_replacements = (color_replacements ! 0) # (color_replacements ! 1) # drop 2 color_replacements"
  by (simp add: color_replacements_def)

lemma c9_rewritten:
  "\<exists>A. rewritten U color_replacements (pre @ str ''color: '') = A @ str ''color: '' \<and>
     rewritten U color_replacements (pre @ str ''color: '' @ str ''#9333ea;'' @ post) =
       A @ str ''color: '' @ str ''var(--primary);'' @ rewritten U color_replacements post \<and>
     match_total U color_replacements (pre @ str ''color: '' @ str ''#9333ea;'' @ post) =
       match_total U color_replacements (pre @ str ''color: '') + 1 +
       match_total U color_replacements post"
proof -
  let ?b = "str ''color: ''" and ?W = "str ''#9333ea;''" and ?V = "str ''var(--primary);''"
  obtain p1 r1 where r1: "color_replacements ! 0 = (p1, r1)" by (cases "color_replacements ! 0")
  obtain p2 r2 where r2: "color_replacements ! 1 = (p2, r2)" by (cases "color_replacements ! 1")
  define rest where "rest = drop 2 color_replacements"
  have cr: "color_replacements = (p1, r1) # (p2, r2) # rest"
    using table_split r1 r2 rest_def by simp
  from step_keep [OF c9_rule1 [unfolded r1], where X = pre] obtain A1 where
    a0: "re_sub U p1 r1 None (pre @ ?b) = A1 @ ?b"
    and a1: "\<And>Y. re_sub U p1 r1 None (pre @ ?b @ ?W @ Y) = A1 @ ?b @ ?W @ re_sub U p1 r1 None Y"
    and a2: "\<And>Y. findall_count U p1 None (pre @ ?b @ ?W @ Y) =
            findall_count U p1 None (pre @ ?b) + 0 + findall_count U p1 None Y"
    by blast
  from step_keep [OF c9_rule2 [unfolded r2], where X = A1] obtain A2 where
    b0: "re_sub U p2 r2 None (A1 @ ?b) = A2 @ ?b"
    and b1: "\<And>Y. re_sub U p2 r2 None (A1 @ ?b @ ?W @ Y) = A2 @ ?b @ ?V @ re_sub U p2 r2 None Y"
    and b2: "\<And>Y. findall_count U p2 None (A1 @ ?b @ ?W @ Y) =
            findall_count U p2 None (A1 @ ?b) + 1 + findall_count U p2 None Y"
    by blast
  from chain_keep [OF c9_rest, where X = A2 and Y = "re_sub U p2 r2 None (re_sub U p1 r1 None post)" and U = U]
  obtain A where
    c0: "rewritten U rest (A2 @ ?b) = A @ ?b"
    and c1: "rewritten U rest (A2 @ ?b @ ?V @ re_sub U p2 r2 None (re_sub U p1 r1 None post)) =
        A @ ?b @ ?V @ rewritten U rest (re_sub U p2 r2 None (re_sub U p1 r1 None post))"
    and c2: "match_total U rest (A2 @ ?b @ ?V @ re_sub U p2 r2 None (re_sub U p1 r1 None post)) =
         match_total U rest (A2 @ ?b) +
         match_total U rest (re_sub U p2 r2 None (re_sub U p1 r1 None post))"
    unfolding rest_def by blast
  have "rewritten U color_replacements (pre @ ?b) = A @ ?b \<and>
     rewritten U color_replacements (pre @ ?b @ ?W @ post) =
       A @ ?b @ ?V @ rewritten U color_replacements post \<and>
     match_total U color_replacements (pre @ ?b @ ?W @ post) =
       match_total U color_replacements (pre @ ?b) + 1 +
       match_total U color_replacements post"
    unfolding cr rewritten.simps match_total.simps a0 a1 a2 b0 b1 b2 c0 c1 c2 by simp
  then show ?thesis by blast
qed

text \<open>
  C9.  A stylesheet with \<^verbatim>\<open>color: #9333ea;\<close> anywhere in it, read, written and reported
  without an error: \<^verbatim>\<open>fix_colors_in_file\<close> returns \<^verbatim>\<open>True\<close> and writes the file with
  \<^verbatim>\<open>color: var(--primary);\<close> at the place of the occurrence.  The text before the
  value comes out as it does when the file ends after \<^verbatim>\<open>color: \<close> (and still ends with
  \<^verbatim>\<open>color: \<close>), the text after the semicolon as it does alone; the count printed is
  the count of these two parts and 1 for the occurrence.
\<close>

theorem color_property_rewritten:
  assumes "contents w p = Inr (pre @ str ''color: #9333ea;'' @ post)"
    and "write_error w p = None" and "\<forall>l. print_error w l = None"
  shows "fix_colors_in_file U p w =
     (Inr True,
      w\<lparr>contents := (contents w)(p := Inr
           (rewritten U color_replacements (pre @ str ''color: '') @
            str ''var(--primary);'' @ rewritten U color_replacements post)),
        writes := p # writes w,
        console := console w @
          [Changed p (match_total U color_replacements (pre @ str ''color: '') + 1 +
                      match_total U color_replacements post)]\<rparr>)
   \<and> suffix (str ''color: '') (rewritten U color_replacements (pre @ str ''color: ''))"
proof -
  let ?t = "pre @ str ''color: #9333ea;'' @ post"
  have e: "str ''color: #9333ea;'' = str ''color: '' @ str ''#9333ea;''"
    by (simp add: str_def)
  from c9_rewritten [where U = U and pre = pre and post = post] obtain A where
    r0: "rewritten U color_replacements (pre @ str ''color: '') = A @ str ''color: ''"
    and r1: "rewritten U color_replacements ?t =
       A @ str ''color: '' @ str ''var(--primary);'' @ rewritten U color_replacements post"
    and r2: "match_total U color_replacements ?t =
       match_total U color_replacements (pre @ str ''color: '') + 1 +
       match_total U color_replacements post"
    unfolding e by auto
  have m: "(hex_pat ''#9333ea'', str ''var(--primary)'') \<in> set color_replacements"
    by (simp add: color_replacements_def)
  have s: "rmatch U (hex_pat ''#9333ea'') None (str ''#9333ea;'' @ post) \<noteq> None"
    by (simp add: hex_pat_def eval_defs)
  have ne: "rewritten U color_replacements ?t \<noteq> ?t"
    using rewritten_changes [OF m s, of "pre @ str ''color: ''"] unfolding e by simp
  have pe: "print_error w (Changed p (match_total U color_replacements ?t)) = None"
    using assms(3) by blast
  show ?thesis
    unfolding fix_colors_changed [OF assms(1) ne assms(2) pe] r1 r2 r0
    by (simp add: suffix_def)
qed

theorem color_property_rewritten_witness:
  "contents (one_file ''src/components/Card.css'' (str ''a { color: #9333ea; }'') (\<lambda>l. None))
     ''src/components/Card.css'' = Inr (str ''a { '' @ str ''color: #9333ea;'' @ str '' }'')
   \<and> write_error (one_file ''src/components/Card.css'' (str ''a { color: #9333ea; }'') (\<lambda>l. None))
     ''src/components/Card.css'' = None
   \<and> (\<forall>l. print_error
          (one_file ''src/components/Card.css'' (str ''a { color: #9333ea; }'') (\<lambda>l. None)) l
        = None)
   \<and> fix_colors_in_file ascii_ucd ''src/components/Card.css''
       (one_file ''src/components/Card.css'' (str ''a { color: #9333ea; }'') (\<lambda>l. None)) =
     (Inr True,
      (one_file ''src/components/Card.css'' (str ''a { color: #9333ea; }'') (\<lambda>l. None))
        \<lparr>contents :=
           (contents (one_file ''src/components/Card.css'' (str ''a { color: #9333ea; }'')
              (\<lambda>l. None)))
           (''src/components/Card.css'' := Inr (str ''a { color: var(--primary); }'')),
         writes := [''src/components/Card.css''],
         console := [Changed ''src/components/Card.css'' 1]\<rparr>)"
proof -
  let ?p = "''src/components/Card.css''"
  let ?w = "one_file ?p (str ''a { color: #9333ea; }'') (\<lambda>l. None)"
  have c: "contents ?w ?p = Inr (str ''a { '' @ str ''color: #9333ea;'' @ str '' }'')"
    and e: "write_error ?w ?p = None" and pe: "\<forall>l. print_error ?w l = None"
    and wr: "writes ?w = []" and co: "console ?w = []"
    by (simp_all add: one_file_def str_def)
  have a1: "apply_rules ascii_ucd color_replacements (str ''a { '' @ str ''color: '') 0 =
     (str ''a { color: '', 0)"
    by (simp add: color_replacements_def hex_pat_def gradient_pat_def rgba_pat_def eval_defs)
  have a2: "apply_rules ascii_ucd color_replacements (str '' }'') 0 = (str '' }'', 0)"
    by (simp add: color_replacements_def hex_pat_def gradient_pat_def rgba_pat_def eval_defs)
  have b1: "rewritten ascii_ucd color_replacements (str ''a { '' @ str ''color: '') =
       str ''a { color: ''"
    and b2: "match_total ascii_ucd color_replacements (str ''a { '' @ str ''color: '') = 0"
    and b3: "rewritten ascii_ucd color_replacements (str '' }'') = str '' }''"
    and b4: "match_total ascii_ucd color_replacements (str '' }'') = 0"
    using a1 a2 unfolding table_apply by simp_all
  have j: "str ''a { color: '' @ str ''var(--primary);'' @ str '' }'' =
      str ''a { color: var(--primary); }''"
    by (simp add: str_def)
  from color_property_rewritten [OF c e pe, of ascii_ucd]
  show ?thesis
    unfolding b1 b2 b3 b4 j using c e pe wr co by simp
qed

section \<open>The gradient\<close>

lemma gradient_cons: "\<exists>a ps. gradient_pat = One a # ps \<and> list_all (item_rejects U 108) ps
     \<and> list_all (item_rejects U 118) ps"
  by (simp add: gradient_pat_def lits_def is_space_def)

lemma gradient_here:
  "re_sub U gradient_pat r None (str ''linear-gradient(135deg, #a855f7 0%, #9333ea 100%)'' @ Y) =
     r @ re_sub U gradient_pat r None Y
   \<and> findall_count U gradient_pat None
        (str ''linear-gradient(135deg, #a855f7 0%, #9333ea 100%)'' @ Y) =
      1 + findall_count U gradient_pat None Y"
  by (simp add: gradient_pat_def lits_def str_def is_space_def re_sub_Some findall_Some)

lemma gradient_rep:
  "re_sub U gradient_pat r None (str ''var(--primary-gradient)'') = str ''var(--primary-gradient)''
   \<and> findall_count U gradient_pat None (str ''var(--primary-gradient)'') = 0"
  by (simp add: gradient_pat_def lits_def str_def is_space_def re_sub_Some findall_Some)

lemma c6_rest:
  "list_all (keeps U (str ''var(--primary-gradient)'') [] [] 0) (tl color_replacements)"
  by (simp add: keeps_eval)

lemma gradient_first:
  "re_sub U gradient_pat r None
      (pre @ str ''linear-gradient(135deg, #a855f7 0%, #9333ea 100%)'' @ post) =
     re_sub U gradient_pat r None pre @ r @ re_sub U gradient_pat r None post
   \<and> findall_count U gradient_pat None
       (pre @ str ''linear-gradient(135deg, #a855f7 0%, #9333ea 100%)'' @ post) =
     findall_count U gradient_pat None pre + 1 + findall_count U gradient_pat None post"
proof -
  let ?G = "str ''linear-gradient(135deg, #a855f7 0%, #9333ea 100%)''"
  obtain a ps where g: "gradient_pat = One a # ps" and rj: "list_all (item_rejects U 108) ps"
    using gradient_cons [of U] by blast
  have h: "headed gradient_pat" by (simp add: g)
  obtain G' where G: "?G = 108 # G'" by (simp add: str_def)
  have "rmatch U gradient_pat None (s @ ?G @ post) = rmatch U gradient_pat None s"
    if "s \<noteq> []" for s
    unfolding g G using headed_rejects [OF rj that] by simp
  then have ind: "\<And>a s. pre = a @ s \<Longrightarrow> s \<noteq> [] \<Longrightarrow>
     rmatch U gradient_pat None (s @ ?G @ post) = rmatch U gradient_pat None s" by blast
  from re_sub_append [OF h ind, where r = r] gradient_here [of U r post]
  show ?thesis by simp
qed

lemma gradient_before_rep:
  "re_sub U gradient_pat r None (pre @ str ''var(--primary-gradient)'') =
     re_sub U gradient_pat r None pre @ str ''var(--primary-gradient)''
   \<and> findall_count U gradient_pat None (pre @ str ''var(--primary-gradient)'') =
     findall_count U gradient_pat None pre"
proof -
  let ?V = "str ''var(--primary-gradient)''"
  obtain a ps where g: "gradient_pat = One a # ps" and rj: "list_all (item_rejects U 118) ps"
    using gradient_cons [of U] by blast
  have h: "headed gradient_pat" by (simp add: g)
  obtain V' where V: "?V = 118 # V'" by (simp add: str_def)
  have "rmatch U gradient_pat None (s @ ?V) = rmatch U gradient_pat None s"
    if "s \<noteq> []" for s
    unfolding g V using headed_rejects [OF rj that] by simp
  then have ind: "\<And>a s. pre = a @ s \<Longrightarrow> s \<noteq> [] \<Longrightarrow>
     rmatch U gradient_pat None (s @ ?V) = rmatch U gradient_pat None s" by blast
  from re_sub_append [OF h ind, where r = r] gradient_rep [of U r]
  show ?thesis by simp
qed

lemma table_hd:
  "color_replacements = (gradient_pat, str ''var(--primary-gradient)'') # tl color_replacements"
  by (simp add: color_replacements_def)

lemma c6_rewritten:
  "\<exists>A. rewritten U color_replacements (pre @ str ''var(--primary-gradient)'') =
         A @ str ''var(--primary-gradient)'' \<and>
     rewritten U color_replacements
       (pre @ str ''linear-gradient(135deg, #a855f7 0%, #9333ea 100%)'' @ post) =
       A @ str ''var(--primary-gradient)'' @ rewritten U color_replacements post \<and>
     match_total U color_replacements
       (pre @ str ''linear-gradient(135deg, #a855f7 0%, #9333ea 100%)'' @ post) =
       match_total U color_replacements (pre @ str ''var(--primary-gradient)'') + 1 +
       match_total U color_replacements post"
proof -
  let ?G = "str ''linear-gradient(135deg, #a855f7 0%, #9333ea 100%)''"
  let ?V = "str ''var(--primary-gradient)''"
  let ?s = "re_sub U gradient_pat ?V None"
  let ?c = "findall_count U gradient_pat None"
  define rest where "rest = tl color_replacements"
  have cr: "color_replacements = (gradient_pat, ?V) # rest"
    using table_hd rest_def by simp
  have g1: "?s (pre @ ?G @ post) = ?s pre @ ?V @ ?s post"
    and g2: "?c (pre @ ?G @ post) = ?c pre + 1 + ?c post"
    using gradient_first [of U ?V pre post] by simp_all
  have v1: "?s (pre @ ?V) = ?s pre @ ?V" and v2: "?c (pre @ ?V) = ?c pre"
    using gradient_before_rep [of U ?V pre] by simp_all
  from chain_keep [OF c6_rest, where X = "?s pre" and Y = "?s post" and U = U]
  obtain A where
    c0: "rewritten U rest (?s pre @ ?V) = A @ ?V"
    and c1: "rewritten U rest (?s pre @ ?V @ ?s post) = A @ ?V @ rewritten U rest (?s post)"
    and c2: "match_total U rest (?s pre @ ?V @ ?s post) =
         match_total U rest (?s pre @ ?V) + match_total U rest (?s post)"
    unfolding rest_def by auto
  have r1: "rewritten U color_replacements (pre @ ?V) = A @ ?V"
    unfolding cr rewritten.simps v1 c0 by simp
  have r2: "rewritten U color_replacements (pre @ ?G @ post) =
      A @ ?V @ rewritten U color_replacements post"
    unfolding cr rewritten.simps g1 c1 by simp
  have r3: "match_total U color_replacements (pre @ ?G @ post) =
      match_total U color_replacements (pre @ ?V) + 1 + match_total U color_replacements post"
    unfolding cr match_total.simps g1 g2 v1 v2 c2 by simp
  show ?thesis using r1 r2 r3 by blast
qed

text \<open>
  C6.  The gradient rule is the first rule of the table, and on a text with the gradient
  expression \<^verbatim>\<open>linear-gradient(135deg, #a855f7 0%, #9333ea 100%)\<close> it replaces the
  expression as one match, the two hex colours inside included; the text before and
  the text after are rewritten as they are alone.  For a stylesheet with the expression
  that is read, written and reported without an error, \<^verbatim>\<open>fix_colors_in_file\<close> returns
  \<^verbatim>\<open>True\<close> and writes the file with \<^verbatim>\<open>var(--primary-gradient)\<close> at the place of the
  expression: the text before comes out as it does in front of
  \<^verbatim>\<open>var(--primary-gradient)\<close>, which no later rule touches, the text after as it does
  alone, and the count printed is the count of these two parts and 1.
\<close>

theorem gradient_replaced_whole:
  assumes "contents w p =
      Inr (pre @ str ''linear-gradient(135deg, #a855f7 0%, #9333ea 100%)'' @ post)"
    and "write_error w p = None" and "\<forall>l. print_error w l = None"
  shows "hd color_replacements = (gradient_pat, str ''var(--primary-gradient)'')
   \<and> re_sub U gradient_pat (str ''var(--primary-gradient)'') None
        (pre @ str ''linear-gradient(135deg, #a855f7 0%, #9333ea 100%)'' @ post) =
      re_sub U gradient_pat (str ''var(--primary-gradient)'') None pre @
      str ''var(--primary-gradient)'' @
      re_sub U gradient_pat (str ''var(--primary-gradient)'') None post
   \<and> findall_count U gradient_pat None
        (pre @ str ''linear-gradient(135deg, #a855f7 0%, #9333ea 100%)'' @ post) =
      findall_count U gradient_pat None pre + 1 + findall_count U gradient_pat None post
   \<and> fix_colors_in_file U p w =
     (Inr True,
      w\<lparr>contents := (contents w)(p := Inr
           (rewritten U color_replacements (pre @ str ''var(--primary-gradient)'') @
            rewritten U color_replacements post)),
        writes := p # writes w,
        console := console w @
          [Changed p (match_total U color_replacements (pre @ str ''var(--primary-gradient)'')
                      + 1 + match_total U color_replacements post)]\<rparr>)
   \<and> suffix (str ''var(--primary-gradient)'')
        (rewritten U color_replacements (pre @ str ''var(--primary-gradient)''))"
proof -
  let ?G = "str ''linear-gradient(135deg, #a855f7 0%, #9333ea 100%)''"
  let ?V = "str ''var(--primary-gradient)''"
  let ?t = "pre @ ?G @ post"
  from c6_rewritten [where U = U and pre = pre and post = post] obtain A where
    r0: "rewritten U color_replacements (pre @ ?V) = A @ ?V"
    and r1: "rewritten U color_replacements ?t = A @ ?V @ rewritten U color_replacements post"
    and r2: "match_total U color_replacements ?t =
       match_total U color_replacements (pre @ ?V) + 1 + match_total U color_replacements post"
    by auto
  have m: "(gradient_pat, ?V) \<in> set color_replacements"
    by (simp add: color_replacements_def)
  have s: "rmatch U gradient_pat None (?G @ post) \<noteq> None"
    by (simp add: gradient_pat_def eval_defs)
  have ne: "rewritten U color_replacements ?t \<noteq> ?t"
    using rewritten_changes [OF m s, of pre] by simp
  have pe: "print_error w (Changed p (match_total U color_replacements ?t)) = None"
    using assms(3) by blast
  have h: "hd color_replacements = (gradient_pat, ?V)"
    by (simp add: color_replacements_def)
  have f: "fix_colors_in_file U p w =
     (Inr True,
      w\<lparr>contents := (contents w)(p := Inr
           (rewritten U color_replacements (pre @ ?V) @ rewritten U color_replacements post)),
        writes := p # writes w,
        console := console w @
          [Changed p (match_total U color_replacements (pre @ ?V)
                      + 1 + match_total U color_replacements post)]\<rparr>)"
    unfolding fix_colors_changed [OF assms(1) ne assms(2) pe] r1 r2 r0 by simp
  have x: "suffix ?V (rewritten U color_replacements (pre @ ?V))"
    unfolding r0 by (simp add: suffix_def)
  show ?thesis
    using h f x gradient_first [of U ?V pre post] by simp
qed

theorem gradient_replaced_whole_witness:
  "contents (one_file ''src/components/Hero.css''
       (str ''a { background: linear-gradient(135deg, #a855f7 0%, #9333ea 100%); }'')
       (\<lambda>l. None)) ''src/components/Hero.css'' =
     Inr (str ''a { background: '' @
          str ''linear-gradient(135deg, #a855f7 0%, #9333ea 100%)'' @ str ''; }'')
   \<and> write_error (one_file ''src/components/Hero.css''
       (str ''a { background: linear-gradient(135deg, #a855f7 0%, #9333ea 100%); }'')
       (\<lambda>l. None)) ''src/components/Hero.css'' = None
   \<and> (\<forall>l. print_error (one_file ''src/components/Hero.css''
       (str ''a { background: linear-gradient(135deg, #a855f7 0%, #9333ea 100%); }'')
       (\<lambda>l. None)) l = None)
   \<and> fix_colors_in_file ascii_ucd ''src/components/Hero.css''
       (one_file ''src/components/Hero.css''
         (str ''a { background: linear-gradient(135deg, #a855f7 0%, #9333ea 100%); }'')
         (\<lambda>l. None)) =
     (Inr True,
      (one_file ''src/components/Hero.css''
         (str ''a { background: linear-gradient(135deg, #a855f7 0%, #9333ea 100%); }'')
         (\<lambda>l. None))
        \<lparr>contents :=
           (contents (one_file ''src/components/Hero.css''
              (str ''a { background: linear-gradient(135deg, #a855f7 0%, #9333ea 100%); }'')
              (\<lambda>l. None)))
           (''src/components/Hero.css'' :=
              Inr (str ''a { background: var(--primary-gradient); }'')),
         writes := [''src/components/Hero.css''],
         console := [Changed ''src/components/Hero.css'' 1]\<rparr>)"
proof -
  let ?p = "''src/components/Hero.css''"
  let ?t = "str ''a { background: linear-gradient(135deg, #a855f7 0%, #9333ea 100%); }''"
  let ?w = "one_file ?p ?t (\<lambda>l. None)"
  have c: "contents ?w ?p = Inr (str ''a { background: '' @
          str ''linear-gradient(135deg, #a855f7 0%, #9333ea 100%)'' @ str ''; }'')"
    and e: "write_error ?w ?p = None" and pe: "\<forall>l. print_error ?w l = None"
    and wr: "writes ?w = []" and co: "console ?w = []"
    by (simp_all add: one_file_def str_def)
  have a1: "apply_rules ascii_ucd color_replacements
       (str ''a { background: '' @ str ''var(--primary-gradient)'') 0 =
     (str ''a { background: var(--primary-gradient)'', 0)"
    by (simp add: color_replacements_def hex_pat_def gradient_pat_def rgba_pat_def eval_defs)
  have a2: "apply_rules ascii_ucd color_replacements (str ''; }'') 0 = (str ''; }'', 0)"
    by (simp add: color_replacements_def hex_pat_def gradient_pat_def rgba_pat_def eval_defs)
  have b1: "rewritten ascii_ucd color_replacements
         (str ''a { background: '' @ str ''var(--primary-gradient)'') =
       str ''a { background: var(--primary-gradient)''"
    and b2: "match_total ascii_ucd color_replacements
         (str ''a { background: '' @ str ''var(--primary-gradient)'') = 0"
    and b3: "rewritten ascii_ucd color_replacements (str ''; }'') = str ''; }''"
    and b4: "match_total ascii_ucd color_replacements (str ''; }'') = 0"
    using a1 a2 unfolding table_apply by simp_all
  have j: "str ''a { background: var(--primary-gradient)'' @ str ''; }'' =
      str ''a { background: var(--primary-gradient); }''"
    by (simp add: str_def)
  from gradient_replaced_whole [OF c e pe, of ascii_ucd]
  show ?thesis
    unfolding b1 b2 b3 b4 j using c e pe wr co by simp
qed

section \<open>Running the script twice\<close>

lemma table_idem:
  "rewritten U color_replacements (rewritten U color_replacements t) =
     rewritten U color_replacements t"
  using closed_table_idempotent [OF table_closed] by blast

lemma on_text_idem: "(\<And>t. f (f t) = f t) \<Longrightarrow> on_text f (on_text f r) = on_text f r"
  by (cases r) (simp_all add: on_text_def)

lemma env_eq_refl: "env_eq w w"
  by (simp add: env_eq_def)

lemma env_eq_trans: "env_eq w'' w' \<Longrightarrow> env_eq w' w \<Longrightarrow> env_eq w'' w"
  by (simp add: env_eq_def)

lemma env_eq_healthy: "env_eq w' w \<Longrightarrow> healthy w \<Longrightarrow> healthy w'"
  by (simp add: env_eq_def healthy_def)

lemma tbl_run_refl: "tbl_run U {} w w"
  by (simp add: tbl_run_def env_eq_refl)

lemma tbl_run_trans:
  assumes "tbl_run U P w w'" "tbl_run U Q w' w''"
  shows "tbl_run U (P \<union> Q) w w''"
  using assms on_text_idem [of "rewritten U color_replacements", OF table_idem]
  unfolding tbl_run_def by (auto intro: env_eq_trans)

lemma tbl_run_console: "tbl_run U P w w' \<Longrightarrow> tbl_run U P (w\<lparr>console := c\<rparr>) w'"
  by (simp add: tbl_run_def env_eq_def)

lemma tbl_run_fixed: "tbl_run U P w w' \<Longrightarrow> q \<in> P \<Longrightarrow> table_fixed U w' q"
  unfolding tbl_run_def table_fixed_def on_text_def
  by (auto split: sum.splits simp add: table_idem)

text \<open>One file, with writing and printing in order.\<close>

lemma fix_colors_run:
  assumes h: "healthy w"
  shows "\<exists>b w'. fix_colors_in_file U p w = (Inr b, w') \<and> tbl_run U {p} w w'"
proof (cases "contents w p")
  case (Inl e)
  have "fix_colors_in_file U p w = (Inr False, w\<lparr>console := console w @ [Failed p e]\<rparr>)"
    using h Inl
    by (simp add: fix_colors_in_file_def fix_colors_try_def read_file_def print_def
          and_then_def return_def healthy_def)
  moreover have "tbl_run U {p} w (w\<lparr>console := console w @ [Failed p e]\<rparr>)"
    using Inl by (simp add: tbl_run_def env_eq_def on_text_def)
  ultimately show ?thesis by blast
next
  case (Inr t)
  show ?thesis
  proof (cases "rewritten U color_replacements t = t")
    case True
    have "fix_colors_in_file U p w = (Inr False, w\<lparr>console := console w @ [NoChange p]\<rparr>)"
      using fix_colors_unchanged [OF Inr True] h by (simp add: healthy_def)
    moreover have "tbl_run U {p} w (w\<lparr>console := console w @ [NoChange p]\<rparr>)"
      using Inr True by (simp add: tbl_run_def env_eq_def on_text_def)
    ultimately show ?thesis by blast
  next
    case False
    let ?w' = "w\<lparr>contents := (contents w)(p := Inr (rewritten U color_replacements t)),
        writes := p # writes w,
        console := console w @ [Changed p (match_total U color_replacements t)]\<rparr>"
    have "fix_colors_in_file U p w = (Inr True, ?w')"
      using fix_colors_changed [OF Inr False] h by (simp add: healthy_def)
    moreover have "tbl_run U {p} w ?w'"
      using Inr by (simp add: tbl_run_def env_eq_def on_text_def)
    ultimately show ?thesis by blast
  qed
qed

lemma fix_colors_quiet:
  assumes h: "healthy w" and f: "table_fixed U w p"
  shows "\<exists>b w'. fix_colors_in_file U p w = (Inr b, w') \<and> quiet_step w w'"
proof (cases "contents w p")
  case (Inl e)
  have "fix_colors_in_file U p w = (Inr False, w\<lparr>console := console w @ [Failed p e]\<rparr>)"
    using h Inl
    by (simp add: fix_colors_in_file_def fix_colors_try_def read_file_def print_def
          and_then_def return_def healthy_def)
  moreover have "quiet_step w (w\<lparr>console := console w @ [Failed p e]\<rparr>)"
    unfolding quiet_step_def
    by (rule exI [of _ "[Failed p e]"], rule exI [of _ "[]"]) (simp add: quiet_def)
  ultimately show ?thesis by blast
next
  case (Inr t)
  then have "rewritten U color_replacements t = t" using f by (simp add: table_fixed_def)
  then have "fix_colors_in_file U p w = (Inr False, w\<lparr>console := console w @ [NoChange p]\<rparr>)"
    using fix_colors_unchanged [OF Inr] h by (simp add: healthy_def)
  moreover have "quiet_step w (w\<lparr>console := console w @ [NoChange p]\<rparr>)"
    unfolding quiet_step_def
    by (rule exI [of _ "[NoChange p]"], rule exI [of _ "[]"]) (simp add: quiet_def)
  ultimately show ?thesis by blast
qed

lemma quiet_step_refl: "quiet_step w w"
  unfolding quiet_step_def by (rule exI [of _ "[]"], rule exI [of _ "[]"]) simp

lemma quiet_step_trans:
  assumes "quiet_step w w'" "quiet_step w' w''"
  shows "quiet_step w w''"
proof -
  from assms(1) obtain ls ws where
    1: "w' = w\<lparr>writes := ws @ writes w, console := console w @ ls\<rparr>" "list_all quiet ls"
    unfolding quiet_step_def by blast
  from assms(2) obtain ls' ws' where
    2: "w'' = w'\<lparr>writes := ws' @ writes w', console := console w' @ ls'\<rparr>" "list_all quiet ls'"
    unfolding quiet_step_def by blast
  have "w'' = w\<lparr>writes := (ws' @ ws) @ writes w, console := console w @ (ls @ ls')\<rparr>"
    using 1 2 by simp
  moreover have "list_all quiet (ls @ ls')" using 1 2 by simp
  ultimately show ?thesis unfolding quiet_step_def by blast
qed

lemma quiet_step_keeps:
  assumes "quiet_step w w'"
  shows "contents w' = contents w" "env_eq w' w" "healthy w \<Longrightarrow> healthy w'"
    "settled U w \<Longrightarrow> settled U w'" "table_fixed U w p \<Longrightarrow> table_fixed U w' p"
    "spinner_fixed U w \<Longrightarrow> spinner_fixed U w'"
  using assms
  by (auto simp add: quiet_step_def env_eq_def healthy_def settled_def table_fixed_def
        spinner_fixed_def)

lemma process_components_run:
  "healthy w \<Longrightarrow>
   \<exists>w'. process_components U names w = (Inr (), w') \<and> tbl_run U (set (css_paths names)) w w'"
proof (induction names arbitrary: w)
  case Nil
  then show ?case by (simp add: css_paths_def tbl_run_refl)
next
  case (Cons f names)
  show ?case
  proof (cases "endswith f ''.css''")
    case False
    then show ?thesis using Cons.IH [OF Cons.prems] by (simp add: css_paths_def)
  next
    case True
    from fix_colors_run [OF Cons.prems, of U "path_join component_dir f"] obtain b w1 where
      1: "fix_colors_in_file U (path_join component_dir f) w = (Inr b, w1)"
      and r1: "tbl_run U {path_join component_dir f} w w1" by blast
    have h1: "healthy w1" using r1 Cons.prems env_eq_healthy by (auto simp add: tbl_run_def)
    from Cons.IH [OF h1] obtain w' where
      2: "process_components U names w1 = (Inr (), w')"
      and r2: "tbl_run U (set (css_paths names)) w1 w'" by blast
    have "process_components U (f # names) w = (Inr (), w')"
      using True 1 2 by (simp add: and_then_def)
    moreover have "tbl_run U (set (css_paths (f # names))) w w'"
      using tbl_run_trans [OF r1 r2] True by (simp add: css_paths_def)
    ultimately show ?thesis by blast
  qed
qed

lemma process_components_quiet:
  "healthy w \<Longrightarrow> \<forall>p \<in> set (css_paths names). table_fixed U w p \<Longrightarrow>
   \<exists>w'. process_components U names w = (Inr (), w') \<and> quiet_step w w'"
proof (induction names arbitrary: w)
  case Nil
  then show ?case by (simp add: quiet_step_refl)
next
  case (Cons f names)
  show ?case
  proof (cases "endswith f ''.css''")
    case False
    then show ?thesis using Cons.IH [OF Cons.prems(1)] Cons.prems(2)
      by (simp add: css_paths_def)
  next
    case True
    then have fx: "table_fixed U w (path_join component_dir f)"
      and rest: "\<forall>p \<in> set (css_paths names). table_fixed U w p"
      using Cons.prems(2) by (simp_all add: css_paths_def)
    from fix_colors_quiet [OF Cons.prems(1) fx] obtain b w1 where
      1: "fix_colors_in_file U (path_join component_dir f) w = (Inr b, w1)"
      and q1: "quiet_step w w1" by blast
    have h1: "healthy w1" using quiet_step_keeps(3) [OF q1 Cons.prems(1)] .
    have "\<forall>p \<in> set (css_paths names). table_fixed U w1 p"
      using rest quiet_step_keeps(5) [OF q1] by blast
    from Cons.IH [OF h1 this] obtain w' where
      2: "process_components U names w1 = (Inr (), w')" and q2: "quiet_step w1 w'" by blast
    have "process_components U (f # names) w = (Inr (), w')"
      using True 1 2 by (simp add: and_then_def)
    then show ?thesis using quiet_step_trans [OF q1 q2] by blast
  qed
qed

text \<open>The paths of the three phases are different files.\<close>

lemma app_not_component: "app_css_file \<notin> set (css_paths names)"
  by (auto simp add: css_paths_def path_join_def component_dir_def app_css_file_def)

lemma app_not_dark: "app_css_file \<noteq> dark_mode_file"
  by (simp add: app_css_file_def dark_mode_file_def)

lemma print_healthy:
  "healthy w \<Longrightarrow> print l w = (Inr (), w\<lparr>console := console w @ [l]\<rparr>)"
  by (simp add: print_def healthy_def)

lemma quiet_print: "quiet l \<Longrightarrow> quiet_step w (w\<lparr>console := console w @ [l]\<rparr>)"
  unfolding quiet_step_def by (rule exI [of _ "[l]"], rule exI [of _ "[]"]) simp

lemma main_listdir_error:
  assumes "healthy w" "path_exists w component_dir" "listdir w component_dir = Inl e"
  shows "main U w = (Inl e, w\<lparr>console := console w @ [BannerStart]\<rparr>)"
  using assms
  by (simp add: main_def and_then_def print_healthy phase_components_def)

text \<open>The first run leaves every file it processes as the rules leave it.\<close>

lemma phase_components_run:
  assumes h: "healthy w"
    and na: "\<not> (path_exists w component_dir \<and> (\<exists>e. listdir w component_dir = Inl e))"
  shows "\<exists>w' P. phase_components U w = (Inr (), w') \<and> tbl_run U P w w' \<and>
           app_css_file \<notin> P \<and>
           (\<forall>names. path_exists w component_dir \<longrightarrow> listdir w component_dir = Inr names \<longrightarrow>
              set (css_paths names) \<subseteq> P)"
proof (cases "path_exists w component_dir")
  case False
  then have "phase_components U w = (Inr (), w)" by (simp add: phase_components_def)
  then show ?thesis using False tbl_run_refl [of U w] by (intro exI [of _ w] exI [of _ "{}"]) simp
next
  case True
  then obtain names where n: "listdir w component_dir = Inr names"
    using na by (cases "listdir w component_dir") auto
  from process_components_run [OF h, of U names] obtain w' where
    "process_components U names w = (Inr (), w')" "tbl_run U (set (css_paths names)) w w'"
    by blast
  then show ?thesis using True n app_not_component [of names]
    by (intro exI [of _ w'] exI [of _ "set (css_paths names)"]) (simp add: phase_components_def)
qed

lemma phase_dark_mode_run:
  assumes h: "healthy w"
  shows "\<exists>w' P. phase_dark_mode U w = (Inr (), w') \<and> tbl_run U P w w' \<and>
           app_css_file \<notin> P \<and> (path_exists w dark_mode_file \<longrightarrow> dark_mode_file \<in> P)"
proof (cases "path_exists w dark_mode_file")
  case False
  then have "phase_dark_mode U w = (Inr (), w)" by (simp add: phase_dark_mode_def)
  then show ?thesis using False tbl_run_refl [of U w] by (intro exI [of _ w] exI [of _ "{}"]) simp
next
  case True
  from fix_colors_run [OF h, of U dark_mode_file] obtain b w' where
    "fix_colors_in_file U dark_mode_file w = (Inr b, w')" "tbl_run U {dark_mode_file} w w'"
    by blast
  then show ?thesis using True app_not_dark
    by (intro exI [of _ w'] exI [of _ "{dark_mode_file}"])
       (simp add: phase_dark_mode_def and_then_def return_def)
qed

lemma phase_app_css_run:
  assumes h: "healthy w"
  shows "\<exists>r w'. phase_app_css U w = (r, w') \<and> env_eq w' w \<and>
           (\<forall>q. q \<noteq> app_css_file \<longrightarrow> contents w' q = contents w q) \<and>
           (path_exists w app_css_file \<longrightarrow> spinner_fixed U w')"
proof (cases "path_exists w app_css_file")
  case False
  then have "phase_app_css U w = (Inr (), w)" by (simp add: phase_app_css_def)
  then show ?thesis using False by (simp add: env_eq_refl)
next
  case True
  show ?thesis
  proof (cases "contents w app_css_file")
    case (Inl e)
    then have "phase_app_css U w = (Inl e, w)" using True
      by (simp add: phase_app_css_def read_file_def)
    then show ?thesis using Inl by (simp add: env_eq_refl spinner_fixed_def)
  next
    case (Inr t)
    let ?w' = "w\<lparr>contents := (contents w)(app_css_file :=
                   Inr (re_sub U spinner_pat spinner_rep None t)),
                 writes := app_css_file # writes w,
                 console := console w @ [SpinnerFixed app_css_file]\<rparr>"
    have "phase_app_css U w = (Inr (), ?w')"
      using True Inr h
      by (simp add: phase_app_css_def read_file_def write_file_def print_def and_then_def
            healthy_def)
    moreover have "env_eq ?w' w" by (simp add: env_eq_def)
    moreover have "spinner_fixed U ?w'" by (simp add: spinner_fixed_def spinner_idempotent)
    ultimately show ?thesis by simp
  qed
qed

lemma settled_console: "settled U (w\<lparr>console := c\<rparr>) = settled U w"
  by (simp add: settled_def table_fixed_def spinner_fixed_def)

lemma first_run_settles:
  assumes h: "healthy w"
  shows "\<exists>r w'. main U w = (r, w') \<and> healthy w' \<and> settled U w'"
proof (cases "path_exists w component_dir \<and> (\<exists>e. listdir w component_dir = Inl e)")
  case True
  then obtain e where e: "listdir w component_dir = Inl e" and p: "path_exists w component_dir"
    by blast
  have "main U w = (Inl e, w\<lparr>console := console w @ [BannerStart]\<rparr>)"
    using main_listdir_error [OF h p e] .
  moreover have "healthy (w\<lparr>console := console w @ [BannerStart]\<rparr>)"
    using h by (simp add: healthy_def)
  moreover have "settled U (w\<lparr>console := console w @ [BannerStart]\<rparr>)"
    using e p by (simp add: settled_def)
  ultimately show ?thesis by blast
next
  case False
  let ?w0 = "w\<lparr>console := console w @ [BannerStart]\<rparr>"
  have h0: "healthy ?w0" using h by (simp add: healthy_def)
  have na0: "\<not> (path_exists ?w0 component_dir \<and> (\<exists>e. listdir ?w0 component_dir = Inl e))"
    using False by simp
  from phase_components_run [OF h0 na0, of U] obtain wA P1 where
    a: "phase_components U ?w0 = (Inr (), wA)" and ra: "tbl_run U P1 ?w0 wA"
    and a1: "app_css_file \<notin> P1"
    and a2: "\<forall>names. path_exists ?w0 component_dir \<longrightarrow> listdir ?w0 component_dir = Inr names \<longrightarrow>
              set (css_paths names) \<subseteq> P1" by blast
  have eA: "env_eq wA ?w0" using ra by (simp add: tbl_run_def)
  have hA: "healthy wA" using env_eq_healthy [OF eA h0] .
  from phase_dark_mode_run [OF hA, of U] obtain wB P2 where
    b: "phase_dark_mode U wA = (Inr (), wB)" and rb: "tbl_run U P2 wA wB"
    and b1: "app_css_file \<notin> P2"
    and b2: "path_exists wA dark_mode_file \<longrightarrow> dark_mode_file \<in> P2" by blast
  have rab: "tbl_run U (P1 \<union> P2) ?w0 wB" using tbl_run_trans [OF ra rb] .
  have eB: "env_eq wB ?w0" using rab by (simp add: tbl_run_def)
  have hB: "healthy wB" using env_eq_healthy [OF eB h0] .
  from phase_app_css_run [OF hB, of U] obtain r wC where
    c: "phase_app_css U wB = (r, wC)" and eC: "env_eq wC wB"
    and c1: "\<forall>q. q \<noteq> app_css_file \<longrightarrow> contents wC q = contents wB q"
    and c2: "path_exists wB app_css_file \<longrightarrow> spinner_fixed U wC" by blast
  have eC0: "env_eq wC ?w0" using env_eq_trans [OF eC eB] .
  have hC: "healthy wC" using env_eq_healthy [OF eC0 h0] .
  have fixed: "table_fixed U wC q" if "q \<in> P1 \<union> P2" for q
  proof -
    have "q \<noteq> app_css_file" using that a1 b1 by auto
    then have "contents wC q = contents wB q" using c1 by simp
    then show ?thesis using tbl_run_fixed [OF rab that] by (simp add: table_fixed_def)
  qed
  have sC: "settled U wC"
    unfolding settled_def
  proof (intro disjI2 conjI allI impI ballI)
    fix names p
    assume "path_exists wC component_dir" "listdir wC component_dir = Inr names"
      "p \<in> set (css_paths names)"
    then have "p \<in> P1" using a2 eC0 by (auto simp add: env_eq_def)
    then show "table_fixed U wC p" using fixed by simp
  next
    assume "path_exists wC dark_mode_file"
    then have "dark_mode_file \<in> P2" using b2 eC0 eA by (simp add: env_eq_def)
    then show "table_fixed U wC dark_mode_file" using fixed by simp
  next
    assume "path_exists wC app_css_file"
    then show "spinner_fixed U wC" using c2 eC by (simp add: env_eq_def)
  qed
  have m: "main U w = (case r of Inl e \<Rightarrow> (Inl e, wC) | Inr u \<Rightarrow> print BannerEnd wC)"
    using a b c h by (simp add: main_def and_then_def print_healthy split: sum.splits)
  show ?thesis
  proof (cases r)
    case (Inl e)
    then show ?thesis using m hC sC by simp
  next
    case (Inr u)
    then have "main U w = (Inr (), wC\<lparr>console := console wC @ [BannerEnd]\<rparr>)"
      using m hC by (simp add: print_healthy)
    moreover have "healthy (wC\<lparr>console := console wC @ [BannerEnd]\<rparr>)"
      using hC by (simp add: healthy_def)
    ultimately show ?thesis using sC by (simp add: settled_console)
  qed
qed

lemma phase_components_quiet:
  assumes h: "healthy w"
    and f: "\<forall>names. path_exists w component_dir \<longrightarrow> listdir w component_dir = Inr names \<longrightarrow>
        (\<forall>p \<in> set (css_paths names). table_fixed U w p)"
  shows "\<exists>r w'. phase_components U w = (r, w') \<and> quiet_step w w'"
proof (cases "path_exists w component_dir")
  case False
  then have "phase_components U w = (Inr (), w)" by (simp add: phase_components_def)
  then show ?thesis using quiet_step_refl by blast
next
  case True
  show ?thesis
  proof (cases "listdir w component_dir")
    case (Inl e)
    then have "phase_components U w = (Inl e, w)" using True by (simp add: phase_components_def)
    then show ?thesis using quiet_step_refl by blast
  next
    case (Inr names)
    then have "\<forall>p \<in> set (css_paths names). table_fixed U w p" using f True by blast
    from process_components_quiet [OF h this] obtain w' where
      "process_components U names w = (Inr (), w')" "quiet_step w w'" by blast
    then show ?thesis using True Inr by (simp add: phase_components_def)
  qed
qed

lemma phase_dark_mode_quiet:
  assumes h: "healthy w" and f: "path_exists w dark_mode_file \<longrightarrow> table_fixed U w dark_mode_file"
  shows "\<exists>w'. phase_dark_mode U w = (Inr (), w') \<and> quiet_step w w'"
proof (cases "path_exists w dark_mode_file")
  case False
  then have "phase_dark_mode U w = (Inr (), w)" by (simp add: phase_dark_mode_def)
  then show ?thesis using quiet_step_refl by blast
next
  case True
  then have "table_fixed U w dark_mode_file" using f by simp
  from fix_colors_quiet [OF h this] obtain b w' where
    "fix_colors_in_file U dark_mode_file w = (Inr b, w')" "quiet_step w w'" by blast
  then show ?thesis using True by (simp add: phase_dark_mode_def and_then_def return_def)
qed

lemma phase_app_css_quiet:
  assumes h: "healthy w" and f: "path_exists w app_css_file \<longrightarrow> spinner_fixed U w"
  shows "\<exists>r w'. phase_app_css U w = (r, w') \<and> quiet_step w w'"
proof (cases "path_exists w app_css_file")
  case False
  then have "phase_app_css U w = (Inr (), w)" by (simp add: phase_app_css_def)
  then show ?thesis using quiet_step_refl by blast
next
  case True
  show ?thesis
  proof (cases "contents w app_css_file")
    case (Inl e)
    then have "phase_app_css U w = (Inl e, w)" using True
      by (simp add: phase_app_css_def read_file_def)
    then show ?thesis using quiet_step_refl by blast
  next
    case (Inr t)
    then have s: "re_sub U spinner_pat spinner_rep None t = t"
      using f True by (simp add: spinner_fixed_def)
    have c: "(contents w)(app_css_file := Inr t) = contents w"
      using Inr by (simp add: fun_upd_idem)
    let ?w' = "w\<lparr>writes := [app_css_file] @ writes w,
                 console := console w @ [SpinnerFixed app_css_file]\<rparr>"
    have "phase_app_css U w = (Inr (), ?w')"
      using True Inr h s c
      by (simp add: phase_app_css_def read_file_def write_file_def print_def and_then_def
            healthy_def)
    moreover have "quiet_step w ?w'"
      unfolding quiet_step_def
      by (rule exI [of _ "[SpinnerFixed app_css_file]"], rule exI [of _ "[app_css_file]"])
         (simp add: quiet_def)
    ultimately show ?thesis by blast
  qed
qed

lemma second_run_quiet:
  assumes h: "healthy w" and s: "settled U w"
  shows "\<exists>r w'. main U w = (r, w') \<and> quiet_step w w'"
proof (cases "path_exists w component_dir \<and> (\<exists>e. listdir w component_dir = Inl e)")
  case True
  then obtain e where e: "listdir w component_dir = Inl e" and p: "path_exists w component_dir"
    by blast
  have "main U w = (Inl e, w\<lparr>console := console w @ [BannerStart]\<rparr>)"
    using main_listdir_error [OF h p e] .
  moreover have "quiet_step w (w\<lparr>console := console w @ [BannerStart]\<rparr>)"
    by (rule quiet_print) (simp add: quiet_def)
  ultimately show ?thesis by blast
next
  case False
  let ?w0 = "w\<lparr>console := console w @ [BannerStart]\<rparr>"
  have q0: "quiet_step w ?w0" by (rule quiet_print) (simp add: quiet_def)
  have h0: "healthy ?w0" using quiet_step_keeps(3) [OF q0 h] .
  from s False have
    s1: "\<forall>names. path_exists w component_dir \<longrightarrow> listdir w component_dir = Inr names \<longrightarrow>
        (\<forall>p \<in> set (css_paths names). table_fixed U w p)"
    and s2: "path_exists w dark_mode_file \<longrightarrow> table_fixed U w dark_mode_file"
    and s3: "path_exists w app_css_file \<longrightarrow> spinner_fixed U w"
    unfolding settled_def by blast+
  have t1: "\<forall>names. path_exists ?w0 component_dir \<longrightarrow> listdir ?w0 component_dir = Inr names \<longrightarrow>
        (\<forall>p \<in> set (css_paths names). table_fixed U ?w0 p)"
    using s1 by (simp add: table_fixed_def)
  from phase_components_quiet [OF h0 t1] obtain ra wA where
    a: "phase_components U ?w0 = (ra, wA)" and qa: "quiet_step ?w0 wA" by blast
  have na0: "\<not> (path_exists ?w0 component_dir \<and> (\<exists>e. listdir ?w0 component_dir = Inl e))"
    using False by simp
  have ra: "ra = Inr ()"
    using a phase_components_run [OF h0 na0, of U] by auto
  have qA: "quiet_step w wA" using quiet_step_trans [OF q0 qa] .
  have hA: "healthy wA" using quiet_step_keeps(3) [OF qA h] .
  have eA: "env_eq wA w" using quiet_step_keeps(2) [OF qA] .
  have "path_exists wA dark_mode_file \<longrightarrow> table_fixed U wA dark_mode_file"
    using s2 eA quiet_step_keeps(5) [OF qA] by (simp add: env_eq_def)
  from phase_dark_mode_quiet [OF hA this] obtain wB where
    b: "phase_dark_mode U wA = (Inr (), wB)" and qb: "quiet_step wA wB" by blast
  have qB: "quiet_step w wB" using quiet_step_trans [OF qA qb] .
  have hB: "healthy wB" using quiet_step_keeps(3) [OF qB h] .
  have eB: "env_eq wB w" using quiet_step_keeps(2) [OF qB] .
  have "path_exists wB app_css_file \<longrightarrow> spinner_fixed U wB"
    using s3 eB quiet_step_keeps(6) [OF qB] by (simp add: env_eq_def)
  from phase_app_css_quiet [OF hB this] obtain r wC where
    c: "phase_app_css U wB = (r, wC)" and qc: "quiet_step wB wC" by blast
  have qC: "quiet_step w wC" using quiet_step_trans [OF qB qc] .
  have hC: "healthy wC" using quiet_step_keeps(3) [OF qC h] .
  have m: "main U w = (case r of Inl e \<Rightarrow> (Inl e, wC) | Inr u \<Rightarrow> print BannerEnd wC)"
    using a ra b c h by (simp add: main_def and_then_def print_healthy split: sum.splits)
  show ?thesis
  proof (cases r)
    case (Inl e)
    then show ?thesis using m qC by simp
  next
    case (Inr u)
    then have "main U w = (Inr (), wC\<lparr>console := console wC @ [BannerEnd]\<rparr>)"
      using m hC by (simp add: print_healthy)
    moreover have "quiet_step wC (wC\<lparr>console := console wC @ [BannerEnd]\<rparr>)"
      by (rule quiet_print) (simp add: quiet_def)
    ultimately show ?thesis using quiet_step_trans [OF qC] by blast
  qed
qed

lemma quiet_no_change: "list_all quiet ls \<Longrightarrow> Changed p n \<notin> set ls"
  by (auto simp add: list_all_iff quiet_def)

text \<open>
  C5.  When no write and no \<^verbatim>\<open>print\<close> raises, a second run of \<^verbatim>\<open>main\<close> right after a
  first one leaves the content of every file as the first run left it, and none of the
  lines it prints reports a change.  The reason is that the output of the rule table
  has no match of any rule left (applying the table to it returns it, with a count of
  0) and that the spinner rewrite returns its own output unchanged.
\<close>

theorem full_pass_idempotent:
  assumes "\<forall>p. write_error w p = None" and "\<forall>l. print_error w l = None"
  shows "contents (snd (main U (snd (main U w)))) = contents (snd (main U w))
   \<and> (\<exists>ls. console (snd (main U (snd (main U w)))) = console (snd (main U w)) @ ls
          \<and> (\<forall>p n. Changed p n \<notin> set ls))
   \<and> rewritten U color_replacements (rewritten U color_replacements t) =
       rewritten U color_replacements t
   \<and> match_total U color_replacements (rewritten U color_replacements t) = 0
   \<and> re_sub U spinner_pat spinner_rep None (re_sub U spinner_pat spinner_rep None s) =
       re_sub U spinner_pat spinner_rep None s"
proof -
  have h: "healthy w" using assms by (simp add: healthy_def)
  from first_run_settles [OF h, of U] obtain r1 w1 where
    1: "main U w = (r1, w1)" and h1: "healthy w1" and s1: "settled U w1" by blast
  from second_run_quiet [OF h1 s1] obtain r2 w2 where
    2: "main U w1 = (r2, w2)" and q: "quiet_step w1 w2" by blast
  from q obtain ls ws where
    w2: "w2 = w1\<lparr>writes := ws @ writes w1, console := console w1 @ ls\<rparr>"
    and ql: "list_all quiet ls"
    unfolding quiet_step_def by blast
  have c: "contents w2 = contents w1" using w2 by simp
  have "console w2 = console w1 @ ls \<and> (\<forall>p n. Changed p n \<notin> set ls)"
    using w2 ql quiet_no_change by simp
  then have l: "\<exists>ls. console w2 = console w1 @ ls \<and> (\<forall>p n. Changed p n \<notin> set ls)" by blast
  show ?thesis
    using c l closed_table_idempotent [OF table_closed, of U t] spinner_idempotent [of U s]
    by (simp add: 1 2)
qed

theorem full_pass_idempotent_witness:
  "(\<forall>p. write_error (one_file dark_mode_file (str ''a { color: #9333ea; }'') (\<lambda>l. None)) p
        = None)
   \<and> (\<forall>l. print_error (one_file dark_mode_file (str ''a { color: #9333ea; }'') (\<lambda>l. None)) l
        = None)
   \<and> contents (snd (main ascii_ucd
        (one_file dark_mode_file (str ''a { color: #9333ea; }'') (\<lambda>l. None)))) dark_mode_file =
      Inr (str ''a { color: var(--primary); }'')
   \<and> contents (snd (main ascii_ucd (snd (main ascii_ucd
        (one_file dark_mode_file (str ''a { color: #9333ea; }'') (\<lambda>l. None)))))) =
      contents (snd (main ascii_ucd
        (one_file dark_mode_file (str ''a { color: #9333ea; }'') (\<lambda>l. None))))
   \<and> console (snd (main ascii_ucd (snd (main ascii_ucd
        (one_file dark_mode_file (str ''a { color: #9333ea; }'') (\<lambda>l. None)))))) =
      [BannerStart, Changed dark_mode_file 1, BannerEnd,
       BannerStart, NoChange dark_mode_file, BannerEnd]"
proof -
  let ?w = "one_file dark_mode_file (str ''a { color: #9333ea; }'') (\<lambda>l. None)"
  have h1: "\<forall>p. write_error ?w p = None" and h2: "\<forall>l. print_error ?w l = None"
    by (simp_all add: one_file_def)
  have a1: "apply_rules ascii_ucd color_replacements (str ''a { color: #9333ea; }'') 0 =
     (str ''a { color: var(--primary); }'', 1)"
    by (simp add: color_replacements_def hex_pat_def gradient_pat_def rgba_pat_def eval_defs)
  have a2: "apply_rules ascii_ucd color_replacements (str ''a { color: var(--primary); }'') 0 =
     (str ''a { color: var(--primary); }'', 0)"
    by (simp add: color_replacements_def hex_pat_def gradient_pat_def rgba_pat_def eval_defs)
  have n: "str ''a { color: var(--primary); }'' \<noteq> str ''a { color: #9333ea; }''"
    by (simp add: str_def)
  have m1: "main ascii_ucd ?w =
     (Inr (), ?w\<lparr>contents := (contents ?w)(dark_mode_file :=
                   Inr (str ''a { color: var(--primary); }'')),
                 writes := [dark_mode_file],
                 console := [BannerStart, Changed dark_mode_file 1, BannerEnd]\<rparr>)"
    by (simp add: main_defs fix_colors_in_file_def fix_colors_try_def one_file_def a1 n)
  have c1: "contents (snd (main ascii_ucd ?w)) dark_mode_file =
      Inr (str ''a { color: var(--primary); }'')"
    unfolding m1 by simp
  have k: "console (snd (main ascii_ucd (snd (main ascii_ucd ?w)))) =
      [BannerStart, Changed dark_mode_file 1, BannerEnd,
       BannerStart, NoChange dark_mode_file, BannerEnd]"
    unfolding m1 by (simp add: main_defs fix_colors_in_file_def fix_colors_try_def one_file_def a2)
  from full_pass_idempotent [OF h1 h2, of ascii_ucd] have
    e: "contents (snd (main ascii_ucd (snd (main ascii_ucd ?w)))) =
        contents (snd (main ascii_ucd ?w))"
    by simp
  show ?thesis using h1 h2 c1 e k by simp
qed

end
